theory Spec2Isabelle
  imports Main "HOL-Library.Word"
begin

section \<open>The dpos consensus verifier of goola (consensus/dpos/consensus.go)\<close>

text \<open>
  The development embeds the header verifier, the batch verifier and the block
  finalisation of \<^verbatim>\<open>consensus/dpos/consensus.go\<close>. Go's \<^verbatim>\<open>uint64\<close> is
  \<^typ>\<open>64 word\<close>, \<^verbatim>\<open>*big.Int\<close> is \<^typ>\<open>int\<close>, an \<^verbatim>\<open>error\<close> return is
  \<open>error option\<close> with \<^term>\<open>None\<close> for \<^verbatim>\<open>nil\<close>, and a pointer that may be
  \<^verbatim>\<open>nil\<close> (the result of \<^verbatim>\<open>GetHeader\<close>) is an \<open>option\<close>.
\<close>

subsection \<open>Data\<close>

type_synonym uint64 = "64 word"
type_synonym hash = "256 word"
type_synonym address = "160 word"

text \<open>
  \<^verbatim>\<open>types.Header\<close> belongs to package \<^verbatim>\<open>core/types\<close>; the record has the
  fields that the engine reads or writes, and the three seal fields that the
  disabled part of \<^verbatim>\<open>VerifySeal\<close> names (\<^verbatim>\<open>Difficulty\<close>, \<^verbatim>\<open>MixDigest\<close>,
  \<^verbatim>\<open>Nonce\<close>).
\<close>

record header =
  ParentHash :: hash
  Coinbase :: address
  Root :: hash
  Difficulty :: int
  Number :: int
  GasLimit :: uint64
  GasUsed :: uint64
  Time :: int
  Extra :: "8 word list"
  MixDigest :: hash
  Nonce :: uint64

text \<open>
  The errors of the engine: the package-level values of \<^verbatim>\<open>consensus\<close> and of
  this file, and one constructor for each \<^verbatim>\<open>fmt.Errorf\<close> of \<^verbatim>\<open>verifyHeader\<close>,
  carrying the values that the message prints.
\<close>

datatype error =
    ErrUnknownAncestor
  | ErrFutureBlock
  | ErrInvalidNumber
  | errLargeBlockTime
  | errZeroBlockTime
  | errNonceOutOfRange
  | errInvalidPoW
  | ExtraDataTooLong nat uint64
  | InvalidGasLimitCap uint64 uint64
  | InvalidGasUsed uint64 uint64
  | InvalidGasLimit uint64 uint64 uint64

text \<open>
  The constants of package \<^verbatim>\<open>params\<close> that \<^verbatim>\<open>verifyHeader\<close> reads are taken
  as parameters: the package is not part of the verified sources. They are Go
  constants of type \<^verbatim>\<open>uint64\<close>; the compiler rejects a constant zero divisor,
  so the division by \<^verbatim>\<open>GasLimitBoundDivisor\<close> cannot panic.
\<close>

record params =
  MaximumExtraDataSize :: uint64
  GasLimitBoundDivisor :: uint64
  MinGasLimit :: uint64

text \<open>The chain configuration: the block of the Byzantium transition, if any.\<close>

record ChainConfig =
  ByzantiumBlock :: "int option"

text \<open>
  \<^verbatim>\<open>consensus.ChainReader\<close>, the chain observer: \<^verbatim>\<open>GetHeader(hash, number)\<close>
  and \<^verbatim>\<open>Config()\<close>.
\<close>

record chain =
  GetHeader :: "hash \<Rightarrow> uint64 \<Rightarrow> header option"
  Config :: ChainConfig

text \<open>
  The engine, the receiver \<^verbatim>\<open>*dops\<close> of the methods. The methods read two of its
  fields: \<^verbatim>\<open>fakeFail\<close>, compared with the block number in \<^verbatim>\<open>VerifySeal\<close>, and
  \<^verbatim>\<open>fakeDelay\<close>, which only feeds \<^verbatim>\<open>time.Sleep\<close> and is left out.
\<close>

record dops =
  fakeFail :: uint64

text \<open>
  \<^verbatim>\<open>(*big.Int).Uint64\<close>: the low 64 bits of the absolute value.
\<close>

definition Uint64 :: "int \<Rightarrow> uint64" where
  "Uint64 x = word_of_int \<bar>x\<bar>"

definition FrontierBlockReward :: int where
  "FrontierBlockReward = 5000000000000000000"

definition ByzantiumBlockReward :: int where
  "ByzantiumBlockReward = 3000000000000000000"

text \<open>\<^verbatim>\<open>allowedFutureBlockTime\<close>, in seconds.\<close>

definition allowedFutureBlockTime :: int where
  "allowedFutureBlockTime = 15"

subsection \<open>Single header verification\<close>

text \<open>
  \<^verbatim>\<open>VerifySeal\<close>: after the sleep, the seal fails exactly when the header's
  number is \<^verbatim>\<open>fakeFail\<close>; the statements after the first \<^verbatim>\<open>return nil\<close> are
  comments or unreachable.
\<close>

definition VerifySeal :: "dops \<Rightarrow> chain \<Rightarrow> header \<Rightarrow> error option" where
  "VerifySeal ethash chn hdr =
     (if fakeFail ethash = Uint64 (Number hdr) then Some errInvalidPoW else None)"

text \<open>
  \<^verbatim>\<open>verifyHeader\<close>. \<open>now\<close> is \<^verbatim>\<open>time.Now().Unix()\<close>, the clock in seconds, at
  the moment of the call. \<^verbatim>\<open>diff\<close> is computed on \<^verbatim>\<open>int64\<close>, that is on the
  word, negated when its signed value is negative, and read back unsigned.
\<close>

definition gasLimitDiff :: "header \<Rightarrow> header \<Rightarrow> uint64" where
  "gasLimitDiff hdr parent =
     (let diff = GasLimit parent - GasLimit hdr
      in if sint diff < 0 then diff * (- 1) else diff)"

definition verifyHeader ::
  "params \<Rightarrow> int \<Rightarrow> dops \<Rightarrow> chain \<Rightarrow> header \<Rightarrow> header \<Rightarrow> bool \<Rightarrow> error option" where
  "verifyHeader pr now ethash chn hdr parent seal =
     (if of_nat (length (Extra hdr)) > MaximumExtraDataSize pr
      then Some (ExtraDataTooLong (length (Extra hdr)) (MaximumExtraDataSize pr))
      else if Time hdr > now + allowedFutureBlockTime then Some ErrFutureBlock
      else if Time hdr \<le> Time parent then Some errZeroBlockTime
      else let cap = (0x7fffffffffffffff :: uint64) in
        if GasLimit hdr > cap then Some (InvalidGasLimitCap (GasLimit hdr) cap)
        else if GasUsed hdr > GasLimit hdr
          then Some (InvalidGasUsed (GasUsed hdr) (GasLimit hdr))
        else let diff = gasLimitDiff hdr parent;
                 limit = GasLimit parent div GasLimitBoundDivisor pr in
          if diff \<ge> limit \<or> GasLimit hdr < MinGasLimit pr
          then Some (InvalidGasLimit (GasLimit hdr) (GasLimit parent) limit)
          else if Number hdr - Number parent \<noteq> 1 then Some ErrInvalidNumber
          else if seal then
            (case VerifySeal ethash chn hdr of Some err \<Rightarrow> Some err | None \<Rightarrow> None)
          else None)"

text \<open>
  \<^verbatim>\<open>VerifyHeader\<close>, the public entry point. \<open>hashH\<close> is \<^verbatim>\<open>Header.Hash\<close> of
  package \<^verbatim>\<open>core/types\<close>, taken as a parameter. \<^verbatim>\<open>number-1\<close> wraps on
  \<^verbatim>\<open>uint64\<close>.
\<close>

definition VerifyHeader ::
  "params \<Rightarrow> (header \<Rightarrow> hash) \<Rightarrow> int \<Rightarrow> dops \<Rightarrow> chain \<Rightarrow> header \<Rightarrow> bool \<Rightarrow> error option" where
  "VerifyHeader pr hashH now ethash chn hdr seal =
     (let number = Uint64 (Number hdr) in
      if GetHeader chn (hashH hdr) number \<noteq> None then None
      else case GetHeader chn (ParentHash hdr) (number - 1) of
             None \<Rightarrow> Some ErrUnknownAncestor
           | Some parent \<Rightarrow> verifyHeader pr now ethash chn hdr parent seal)"

subsection \<open>The worker of the batch verifier\<close>

text \<open>
  Indexing a Go slice out of range panics; the panic is a value of the model.
\<close>

datatype panic = IndexOutOfRange

text \<open>
  The parent that \<^verbatim>\<open>verifyHeaderWorker\<close> resolves: for the first entry the
  chain's header with the entry's \<^verbatim>\<open>ParentHash\<close> at \<^verbatim>\<open>number-1\<close>, for a later
  entry the preceding entry when its hash is the entry's \<^verbatim>\<open>ParentHash\<close>, and
  \<^verbatim>\<open>nil\<close> otherwise.
\<close>

definition resolveParent ::
  "(header \<Rightarrow> hash) \<Rightarrow> chain \<Rightarrow> header list \<Rightarrow> nat \<Rightarrow> header option" where
  "resolveParent hashH chn headers index =
     (if index = 0
      then GetHeader chn (ParentHash (headers ! 0)) (Uint64 (Number (headers ! 0)) - 1)
      else if hashH (headers ! (index - 1)) = ParentHash (headers ! index)
      then Some (headers ! (index - 1))
      else None)"

text \<open>
  \<^verbatim>\<open>verifyHeaderWorker\<close>. \<^verbatim>\<open>headers[index]\<close> is read first and \<^verbatim>\<open>seals[index]\<close>
  only when the call of \<^verbatim>\<open>verifyHeader\<close> is reached.
\<close>

definition verifyHeaderWorker ::
  "params \<Rightarrow> (header \<Rightarrow> hash) \<Rightarrow> int \<Rightarrow> dops \<Rightarrow> chain \<Rightarrow> header list \<Rightarrow> bool list
     \<Rightarrow> nat \<Rightarrow> panic + error option" where
  "verifyHeaderWorker pr hashH now ethash chn headers seals index =
     (if index \<ge> length headers then Inl IndexOutOfRange
      else case resolveParent hashH chn headers index of
             None \<Rightarrow> Inr (Some ErrUnknownAncestor)
           | Some parent \<Rightarrow>
               if GetHeader chn (hashH (headers ! index)) (Uint64 (Number (headers ! index)))
                    \<noteq> None
               then Inr None
               else if index \<ge> length seals then Inl IndexOutOfRange
               else Inr (verifyHeader pr now ethash chn (headers ! index) parent
                           (seals ! index)))"

subsection \<open>The batch verifier\<close>

text \<open>
  A call of \<^verbatim>\<open>VerifyHeaders\<close>: the engine, the chain, the headers and the seal
  flags, with what the call reads from its environment: the constants of
  \<^verbatim>\<open>params\<close>, \<^verbatim>\<open>Header.Hash\<close> and \<^verbatim>\<open>runtime.GOMAXPROCS(0)\<close>.
\<close>

record call =
  c_params :: params
  c_hashH :: "header \<Rightarrow> hash"
  c_ethash :: dops
  c_chain :: chain
  c_headers :: "header list"
  c_seals :: "bool list"
  c_gomaxprocs :: nat

text \<open>The number of workers: \<^verbatim>\<open>GOMAXPROCS(0)\<close>, capped at the batch length.\<close>

definition workers :: "call \<Rightarrow> nat" where
  "workers c =
     (if length (c_headers c) < c_gomaxprocs c then length (c_headers c) else c_gomaxprocs c)"

text \<open>
  A worker goroutine is waiting in \<^verbatim>\<open>range inputs\<close> (\<open>Idle\<close>), has received an
  index and not yet stored its verdict (\<open>Running\<close>), has stored the verdict and
  is at \<^verbatim>\<open>done <- index\<close> (\<open>Sending\<close>), or has left the loop (\<open>Exited\<close>).
\<close>

datatype wstate = Idle | Running nat | Sending nat | Exited

text \<open>
  The sequencing goroutine is in its \<^verbatim>\<open>select\<close> loop, or has returned, after
  the last result or on \<^verbatim>\<open>abort\<close>; its return closes \<^verbatim>\<open>inputs\<close>.
\<close>

datatype seqstate = Selecting | Completed | Aborted

text \<open>
  The shared state: the locals \<^verbatim>\<open>in\<close>, \<^verbatim>\<open>out\<close>, \<^verbatim>\<open>checked\<close> and \<^verbatim>\<open>inputs\<close> (only
  whether it is \<^verbatim>\<open>nil\<close>) of the sequencing goroutine, the slice \<^verbatim>\<open>errors\<close>, the
  contents of the buffered channels \<^verbatim>\<open>done\<close> and \<^verbatim>\<open>errorsOut\<close> (for \<^verbatim>\<open>errorsOut\<close>
  everything sent so far, in order), the workers, and whether a goroutine has
  panicked.
\<close>

record vstate =
  v_in :: nat
  v_out :: nat
  v_checked :: "bool list"
  v_inputs_nil :: bool
  v_errors :: "error option list"
  v_done :: "nat list"
  v_errorsOut :: "error option list"
  v_workers :: "wstate list"
  v_seq :: seqstate
  v_crashed :: bool

text \<open>
  The state when \<^verbatim>\<open>VerifyHeaders\<close> returns its two channels. For an empty batch
  no goroutine is started and nothing is ever sent.
\<close>

definition VerifyHeaders_init :: "call \<Rightarrow> vstate" where
  "VerifyHeaders_init c =
     (let n = length (c_headers c) in
      if n = 0
      then \<lparr>v_in = 0, v_out = 0, v_checked = [], v_inputs_nil = False, v_errors = [],
             v_done = [], v_errorsOut = [], v_workers = [], v_seq = Completed,
             v_crashed = False\<rparr>
      else \<lparr>v_in = 0, v_out = 0, v_checked = replicate n False, v_inputs_nil = False,
             v_errors = replicate n None, v_done = [], v_errorsOut = [],
             v_workers = replicate (workers c) Idle, v_seq = Selecting, v_crashed = False\<rparr>)"

text \<open>
  The inner loop of the \<^verbatim>\<open>done\<close> case, after \<^verbatim>\<open>checked[index] = true\<close>:
  \<^verbatim>\<open>for ; checked[out]; out++ { errorsOut <- errors[out]; if out == len(headers)-1 { return } }\<close>.
  The result is \<^verbatim>\<open>out\<close>, what has been sent on \<^verbatim>\<open>errorsOut\<close>, and how the loop
  ended: its condition was false, the goroutine returned, or an index was out
  of range.
\<close>

datatype loop_end = Blocked | Returned | Panicked

function drain ::
  "nat \<Rightarrow> bool list \<Rightarrow> error option list \<Rightarrow> nat \<Rightarrow> error option list
     \<Rightarrow> nat \<times> error option list \<times> loop_end" where
  "drain n checked errs out sent =
     (if out \<ge> length checked then (out, sent, Panicked)
      else if \<not> checked ! out then (out, sent, Blocked)
      else if out \<ge> length errs then (out, sent, Panicked)
      else if int out = int n - 1 then (out, sent @ [errs ! out], Returned)
      else drain n checked errs (out + 1) (sent @ [errs ! out]))"
  by pat_completeness auto
termination
  by (relation "measure (\<lambda>(n, checked, errs, out, sent). length checked - out)") auto

declare drain.simps [simp del]

text \<open>
  The call \<^verbatim>\<open>ethash.verifyHeaderWorker(chain, headers, seals, index)\<close> of a worker
  that reads the clock as \<open>now\<close>.
\<close>

definition worker_verdict :: "call \<Rightarrow> int \<Rightarrow> nat \<Rightarrow> panic + error option" where
  "worker_verdict c now index =
     verifyHeaderWorker (c_params c) (c_hashH c) now (c_ethash c) (c_chain c)
       (c_headers c) (c_seals c) index"

text \<open>
  The steps of the goroutines. \<open>Dispatch w\<close>: the \<^verbatim>\<open>select\<close> takes
  \<^verbatim>\<open>inputs <- in\<close> and worker \<open>w\<close> receives the index. \<open>Compute w now\<close>: worker
  \<open>w\<close> runs \<^verbatim>\<open>verifyHeaderWorker\<close>, reading the clock as \<open>now\<close>, and stores the
  verdict in \<^verbatim>\<open>errors[index]\<close>. \<open>Send w\<close>: the worker's \<^verbatim>\<open>done <- index\<close> goes
  through, which needs room in the buffer of \<^verbatim>\<open>done\<close>, whose capacity is the
  number of workers. \<open>Recv\<close>: the \<^verbatim>\<open>select\<close> takes \<^verbatim>\<open>index := <-done\<close> and runs
  the inner loop. \<open>Abort\<close>: the caller has raised \<^verbatim>\<open>abort\<close>, the \<^verbatim>\<open>select\<close> takes
  \<^verbatim>\<open><-abort\<close> and the goroutine returns; as long as the \<^verbatim>\<open>select\<close> takes other
  cases that are ready, the run goes on. \<open>Exit w\<close>: worker \<open>w\<close>, waiting in
  \<^verbatim>\<open>range inputs\<close>, finds the channel closed and leaves. A step that cannot be
  taken is \<^term>\<open>None\<close>; after a panic nothing runs.
\<close>

datatype event = Dispatch nat | Compute nat int | Send nat | Recv | Abort | Exit nat

definition step :: "call \<Rightarrow> event \<Rightarrow> vstate \<Rightarrow> vstate option" where
  "step c ev s =
     (if v_crashed s then None
      else case ev of
        Dispatch w \<Rightarrow>
          if v_seq s = Selecting \<and> \<not> v_inputs_nil s \<and> w < length (v_workers s)
             \<and> v_workers s ! w = Idle
          then Some (s\<lparr>v_workers := (v_workers s)[w := Running (v_in s)],
                       v_in := v_in s + 1,
                       v_inputs_nil := (v_in s + 1 = length (c_headers c))\<rparr>)
          else None
      | Compute w now \<Rightarrow>
          if w < length (v_workers s) then
            (case v_workers s ! w of
               Running index \<Rightarrow>
                 (case worker_verdict c now index of
                    Inl p \<Rightarrow> Some (s\<lparr>v_crashed := True\<rparr>)
                  | Inr r \<Rightarrow>
                      if index < length (v_errors s)
                      then Some (s\<lparr>v_errors := (v_errors s)[index := r],
                                   v_workers := (v_workers s)[w := Sending index]\<rparr>)
                      else Some (s\<lparr>v_crashed := True\<rparr>))
             | _ \<Rightarrow> None)
          else None
      | Send w \<Rightarrow>
          if w < length (v_workers s) \<and> length (v_done s) < workers c then
            (case v_workers s ! w of
               Sending index \<Rightarrow>
                 Some (s\<lparr>v_done := v_done s @ [index],
                         v_workers := (v_workers s)[w := Idle]\<rparr>)
             | _ \<Rightarrow> None)
          else None
      | Recv \<Rightarrow>
          if v_seq s = Selecting then
            (case v_done s of
               [] \<Rightarrow> None
             | index # rest \<Rightarrow>
                 if index < length (v_checked s) then
                   (let checked = (v_checked s)[index := True];
                        (out, sent, e) = drain (length (c_headers c)) checked (v_errors s)
                                           (v_out s) (v_errorsOut s)
                    in Some (s\<lparr>v_done := rest, v_checked := checked, v_out := out,
                               v_errorsOut := sent,
                               v_seq := (if e = Returned then Completed else Selecting),
                               v_crashed := (e = Panicked)\<rparr>))
                 else Some (s\<lparr>v_done := rest, v_crashed := True\<rparr>))
          else None
      | Abort \<Rightarrow> if v_seq s = Selecting then Some (s\<lparr>v_seq := Aborted\<rparr>) else None
      | Exit w \<Rightarrow>
          if v_seq s \<noteq> Selecting \<and> w < length (v_workers s) \<and> v_workers s ! w = Idle
          then Some (s\<lparr>v_workers := (v_workers s)[w := Exited]\<rparr>)
          else None)"

text \<open>A schedule is a list of steps; it runs while each step can be taken.\<close>

fun run :: "call \<Rightarrow> event list \<Rightarrow> vstate \<Rightarrow> vstate option" where
  "run c [] s = Some s"
| "run c (ev # evs) s = (case step c ev s of None \<Rightarrow> None | Some s' \<Rightarrow> run c evs s')"

text \<open>The clock readings of a schedule.\<close>

fun clock_readings :: "event list \<Rightarrow> int list" where
  "clock_readings [] = []"
| "clock_readings (Compute w now # evs) = now # clock_readings evs"
| "clock_readings (ev # evs) = clock_readings evs"

subsection \<open>Finalisation\<close>

text \<open>
  Modelled from the spec: \<^verbatim>\<open>state.StateDB\<close> and its \<^verbatim>\<open>AddBalance\<close> (package
  \<^verbatim>\<open>core/state\<close>, not part of the verified sources). The state is the balance of every account and the
  rest of the state, left abstract; \<^verbatim>\<open>AddBalance\<close> credits the amount to the
  balance of the account.
\<close>

record 'o StateDB =
  Balance :: "address \<Rightarrow> int"
  Other :: 'o

definition AddBalance :: "'o StateDB \<Rightarrow> address \<Rightarrow> int \<Rightarrow> 'o StateDB" where
  "AddBalance st addr amount = st\<lparr>Balance := (Balance st)(addr := Balance st addr + amount)\<rparr>"

text \<open>
  Modelled from the spec: \<^verbatim>\<open>(*params.ChainConfig).IsByzantium\<close> (package
  \<^verbatim>\<open>params\<close>, not part of the verified sources). The lower reward applies after a configured
  transition block: a block is in the later era when a transition block is
  configured and the block's number has reached it.
\<close>

definition IsByzantium :: "ChainConfig \<Rightarrow> int \<Rightarrow> bool" where
  "IsByzantium config num =
     (case ByzantiumBlock config of None \<Rightarrow> False | Some b \<Rightarrow> b \<le> num)"

text \<open>
  \<^verbatim>\<open>accumulateRewards\<close> receives the state and the header by pointer; the model
  returns both as they are after the call.
\<close>

definition accumulateRewards ::
  "ChainConfig \<Rightarrow> 'o StateDB \<Rightarrow> header \<Rightarrow> 'o StateDB \<times> header" where
  "accumulateRewards config st hdr =
     (let blockReward = (if IsByzantium config (Number hdr) then ByzantiumBlockReward
                         else FrontierBlockReward);
          reward = blockReward
      in (AddBalance st (Coinbase hdr) reward, hdr))"


subsection \<open>The order of the rule checks, as the specification words it\<close>

text \<open>
  Each rule check of the specification as a function of its own, and the
  verdict of an ordered list of checks: the error of the first that fails.
  The gas-limit check is the specification's: the absolute difference of the
  two gas limits, as integers, must be below the parent's gas limit divided
  by the divisor, and the gas limit must reach the protocol minimum. The seal
  check of this engine, run if requested, fails for the one block number that
  \<^verbatim>\<open>fakeFail\<close> names.
\<close>

fun first_failure :: "error option list \<Rightarrow> error option" where
  "first_failure [] = None"
| "first_failure (None # cs) = first_failure cs"
| "first_failure (Some e # cs) = Some e"

definition check_extra_data :: "params \<Rightarrow> header \<Rightarrow> error option" where
  "check_extra_data pr hdr =
     (if of_nat (length (Extra hdr)) > MaximumExtraDataSize pr
      then Some (ExtraDataTooLong (length (Extra hdr)) (MaximumExtraDataSize pr)) else None)"

definition check_not_future :: "int \<Rightarrow> header \<Rightarrow> error option" where
  "check_not_future now hdr =
     (if Time hdr > now + allowedFutureBlockTime then Some ErrFutureBlock else None)"

definition check_after_parent :: "header \<Rightarrow> header \<Rightarrow> error option" where
  "check_after_parent hdr parent =
     (if Time hdr \<le> Time parent then Some errZeroBlockTime else None)"

definition check_gas_ceiling :: "header \<Rightarrow> error option" where
  "check_gas_ceiling hdr =
     (if GasLimit hdr > 0x7fffffffffffffff
      then Some (InvalidGasLimitCap (GasLimit hdr) 0x7fffffffffffffff) else None)"

definition check_gas_used :: "header \<Rightarrow> error option" where
  "check_gas_used hdr =
     (if GasUsed hdr > GasLimit hdr then Some (InvalidGasUsed (GasUsed hdr) (GasLimit hdr))
      else None)"

definition check_gas_limit_delta :: "params \<Rightarrow> header \<Rightarrow> header \<Rightarrow> error option" where
  "check_gas_limit_delta pr hdr parent =
     (if \<not> \<bar>uint (GasLimit hdr) - uint (GasLimit parent)\<bar>
             < uint (GasLimit parent) div uint (GasLimitBoundDivisor pr)
         \<or> uint (GasLimit hdr) < uint (MinGasLimit pr)
      then Some (InvalidGasLimit (GasLimit hdr) (GasLimit parent)
                   (GasLimit parent div GasLimitBoundDivisor pr))
      else None)"

definition check_number :: "header \<Rightarrow> header \<Rightarrow> error option" where
  "check_number hdr parent =
     (if Number hdr - Number parent \<noteq> 1 then Some ErrInvalidNumber else None)"

definition check_seal :: "dops \<Rightarrow> header \<Rightarrow> bool \<Rightarrow> error option" where
  "check_seal ethash hdr seal =
     (if seal \<and> uint (fakeFail ethash) = \<bar>Number hdr\<bar> mod 2 ^ 64 then Some errInvalidPoW
      else None)"

definition checks_in_order ::
  "params \<Rightarrow> int \<Rightarrow> dops \<Rightarrow> chain \<Rightarrow> header \<Rightarrow> header \<Rightarrow> bool \<Rightarrow> error option list" where
  "checks_in_order pr now ethash chn hdr parent seal =
     [check_extra_data pr hdr,
      check_not_future now hdr,
      check_after_parent hdr parent,
      check_gas_ceiling hdr,
      check_gas_used hdr,
      check_gas_limit_delta pr hdr parent,
      check_number hdr parent,
      check_seal ethash hdr seal]"

text \<open>
  The conditions that the specification names as equivalent to the success of
  \<^verbatim>\<open>verifyHeader(H, P, true)\<close>, read on the unbounded integers.
\<close>

definition stated_conditions :: "params \<Rightarrow> dops \<Rightarrow> chain \<Rightarrow> header \<Rightarrow> header \<Rightarrow> bool" where
  "stated_conditions pr ethash chn hdr parent \<longleftrightarrow>
     Time hdr > Time parent
     \<and> 0 < uint (GasUsed hdr)
     \<and> uint (GasUsed hdr) \<le> uint (GasLimit hdr)
     \<and> uint (GasLimit hdr) \<le> 2 ^ 63 - 1
     \<and> \<bar>uint (GasLimit hdr) - uint (GasLimit parent)\<bar>
         < uint (GasLimit parent) div uint (GasLimitBoundDivisor pr)
     \<and> Number hdr = Number parent + 1
     \<and> VerifySeal ethash chn hdr = None"



subsection \<open>Invariants and measure of the batch verifier\<close>

text \<open>
  \<open>verdict_at c T i r\<close>: \<open>r\<close> is the verdict of \<^verbatim>\<open>verifyHeaderWorker\<close> for entry \<open>i\<close> at
  one of the clock readings \<open>T\<close>. The first invariant ties what has been sent on
  \<^verbatim>\<open>errorsOut\<close>, and every slot of \<^verbatim>\<open>errors\<close> that has been announced, to the
  verdict of its own entry.
\<close>

definition verdict_at :: "call \<Rightarrow> int set \<Rightarrow> nat \<Rightarrow> error option \<Rightarrow> bool" where
  "verdict_at c T i r \<longleftrightarrow> (\<exists>now\<in>T. worker_verdict c now i = Inr r)"

definition order_inv :: "call \<Rightarrow> int set \<Rightarrow> vstate \<Rightarrow> bool" where
  "order_inv c T s \<longleftrightarrow>
     length (v_checked s) = length (c_headers c)
     \<and> length (v_errors s) = length (c_headers c)
     \<and> (\<forall>j < length (v_errorsOut s). verdict_at c T j (v_errorsOut s ! j))
     \<and> (\<forall>j < length (c_headers c). v_checked s ! j \<longrightarrow> verdict_at c T j (v_errors s ! j))
     \<and> (\<forall>i \<in> set (v_done s). i < length (c_headers c) \<and> verdict_at c T i (v_errors s ! i))
     \<and> (\<forall>w < length (v_workers s). \<forall>i. v_workers s ! w = Sending i \<longrightarrow>
           i < length (c_headers c) \<and> verdict_at c T i (v_errors s ! i))
     \<and> (v_seq s = Selecting \<longrightarrow>
           length (v_errorsOut s) = v_out s \<and> v_out s < length (c_headers c))
     \<and> (v_seq s = Completed \<longrightarrow> length (v_errorsOut s) = length (c_headers c))
     \<and> length (v_errorsOut s) \<le> length (c_headers c)"

text \<open>
  The second invariant accounts for every index that has been handed out: it is
  marked in \<^verbatim>\<open>checked\<close>, waits in \<^verbatim>\<open>done\<close>, or is with a worker.
\<close>

definition in_flight :: "wstate list \<Rightarrow> nat \<Rightarrow> bool" where
  "in_flight ws i \<longleftrightarrow> (\<exists>w < length ws. ws ! w = Running i \<or> ws ! w = Sending i)"

definition account_inv :: "call \<Rightarrow> vstate \<Rightarrow> bool" where
  "account_inv c s \<longleftrightarrow>
     (0 < length (c_headers c) \<longrightarrow> length (v_workers s) = workers c)
     \<and> (v_seq s = Selecting \<longrightarrow> (\<forall>w < length (v_workers s). v_workers s ! w \<noteq> Exited))
     \<and> v_in s \<le> length (c_headers c)
     \<and> (v_seq s = Selecting \<longrightarrow> (v_inputs_nil s \<longleftrightarrow> v_in s = length (c_headers c)))
     \<and> (\<forall>i < v_in s. v_checked s ! i \<or> i \<in> set (v_done s) \<or> in_flight (v_workers s) i)
     \<and> (v_seq s = Selecting \<longrightarrow> \<not> v_checked s ! v_out s)
     \<and> (\<forall>w < length (v_workers s). \<forall>i. v_workers s ! w = Running i \<longrightarrow> i < v_in s)"

text \<open>
  What is left to do, as a number that every step of an unaborted run lowers by
  one.
\<close>

definition is_running :: "wstate \<Rightarrow> bool" where
  "is_running w = (case w of Running k \<Rightarrow> True | _ \<Rightarrow> False)"

definition is_sending :: "wstate \<Rightarrow> bool" where
  "is_sending w = (case w of Sending k \<Rightarrow> True | _ \<Rightarrow> False)"

definition remaining :: "call \<Rightarrow> vstate \<Rightarrow> nat" where
  "remaining c s =
     4 * (length (c_headers c) - v_in s) + 3 * length (filter is_running (v_workers s))
       + 2 * length (filter is_sending (v_workers s)) + length (v_done s)"

subsection \<open>Concrete inputs\<close>

definition params0 :: params where
  "params0 = \<lparr>MaximumExtraDataSize = 32, GasLimitBoundDivisor = 1024, MinGasLimit = 5000\<rparr>"

definition config0 :: ChainConfig where
  "config0 = \<lparr>ByzantiumBlock = Some 100\<rparr>"

definition emptyChain :: chain where
  "emptyChain = \<lparr>GetHeader = (\<lambda>h n. None), Config = config0\<rparr>"

text \<open>
  Two engines: \<^verbatim>\<open>fakeFail\<close> has the zero value, and \<^verbatim>\<open>fakeFail\<close> is the number of
  \<open>child0\<close>.
\<close>

definition engine0 :: dops where
  "engine0 = \<lparr>fakeFail = 0\<rparr>"

definition failer7 :: dops where
  "failer7 = \<lparr>fakeFail = 7\<rparr>"

definition parent0 :: header where
  "parent0 = \<lparr>ParentHash = 0, Coinbase = 0, Root = 0, Difficulty = 1, Number = 6,
     GasLimit = 1000000, GasUsed = 0, Time = 1000, Extra = [], MixDigest = 0, Nonce = 0\<rparr>"

definition child0 :: header where
  "child0 = \<lparr>ParentHash = 6, Coinbase = 7, Root = 0, Difficulty = 0, Number = 7,
     GasLimit = 1000000, GasUsed = 0, Time = 1001, Extra = [], MixDigest = 0, Nonce = 0\<rparr>"

text \<open>
  A stand-in for \<^verbatim>\<open>Header.Hash\<close> on the concrete inputs: the header's number.
\<close>

definition numberHash :: "header \<Rightarrow> hash" where
  "numberHash hdr = word_of_int (Number hdr)"

definition chainKnowing7 :: chain where
  "chainKnowing7 = \<lparr>GetHeader = (\<lambda>h n. if h = 7 \<and> n = 7 then Some child0 else None),
     Config = config0\<rparr>"

definition badChild :: header where
  "badChild = child0\<lparr>GasUsed := 2000000\<rparr>"

definition longExtraChild :: header where
  "longExtraChild = child0\<lparr>GasUsed := 21000, Extra := replicate 33 0\<rparr>"

definition futureChild :: header where
  "futureChild = child0\<lparr>GasUsed := 21000, Time := 5000\<rparr>"

definition lowParent :: header where
  "lowParent = parent0\<lparr>GasLimit := 4097\<rparr>"

definition lowChild :: header where
  "lowChild = child0\<lparr>GasLimit := 4096, GasUsed := 1\<rparr>"

definition wrapParent :: header where
  "wrapParent = parent0\<lparr>GasLimit := 0xffffffffffffffff\<rparr>"

definition wrapChild :: header where
  "wrapChild = child0\<lparr>GasLimit := 5000, GasUsed := 1\<rparr>"

definition orphan8 :: header where
  "orphan8 = child0\<lparr>ParentHash := 99, Number := 8\<rparr>"

definition state0 :: "unit StateDB" where
  "state0 = \<lparr>Balance = (\<lambda>a. if a = 7 then 10 else 0), Other = ()\<rparr>"

definition chain0 :: chain where
  "chain0 = \<lparr>GetHeader = (\<lambda>h n. if h = 6 \<and> n = 6 then Some parent0 else None),
     Config = config0\<rparr>"

definition lateChild :: header where
  "lateChild = child0\<lparr>Number := 100\<rparr>"

text \<open>
  \<open>child0\<close> with other contents in every field that could carry a seal.
\<close>

definition resealedChild :: header where
  "resealedChild = child0\<lparr>Coinbase := 1, Difficulty := 131072, Extra := [1, 2, 3],
     MixDigest := 12345, Nonce := 99\<rparr>"

text \<open>
  A batch of three: \<open>child0\<close> on the known \<open>parent0\<close>, then a header whose gas limit is
  twice its parent's, then a header that is valid on top of it. In the second
  batch the middle header also has the timestamp of its parent.
\<close>

definition wildChild :: header where
  "wildChild = child0\<lparr>ParentHash := 7, Number := 8, GasLimit := 2000000, Time := 1002\<rparr>"

definition grandChild :: header where
  "grandChild = child0\<lparr>ParentHash := 8, Number := 9, GasLimit := 2000000, Time := 1003\<rparr>"

definition batch3 :: call where
  "batch3 = \<lparr>c_params = params0, c_hashH = numberHash, c_ethash = engine0, c_chain = chain0,
     c_headers = [child0, wildChild, grandChild], c_seals = [True, True, True],
     c_gomaxprocs = 4\<rparr>"

definition staleWild :: header where
  "staleWild = wildChild\<lparr>Time := 1001\<rparr>"

definition staleBatch3 :: call where
  "staleBatch3 = batch3\<lparr>c_headers := [child0, staleWild, grandChild]\<rparr>"

text \<open>Three workers; the third finishes first, the first last.\<close>

definition reversedSchedule1 :: "event list" where
  "reversedSchedule1 =
     [Dispatch 0, Dispatch 1, Dispatch 2, Compute 2 2000, Send 2, Recv, Compute 1 2001, Send 1,
      Recv]"

definition reversedSchedule2 :: "event list" where
  "reversedSchedule2 = [Compute 0 2002, Send 0, Recv]"

definition midState3 :: vstate where
  "midState3 = \<lparr>v_in = 3, v_out = 0, v_checked = [False, True, True], v_inputs_nil = True,
     v_errors = [None, Some (InvalidGasLimit 2000000 1000000 976), None], v_done = [],
     v_errorsOut = [], v_workers = [Running 0, Idle, Idle], v_seq = Selecting,
     v_crashed = False\<rparr>"

definition finalState3 :: vstate where
  "finalState3 = \<lparr>v_in = 3, v_out = 2, v_checked = [True, True, True], v_inputs_nil = True,
     v_errors = [None, Some (InvalidGasLimit 2000000 1000000 976), None], v_done = [],
     v_errorsOut = [None, Some (InvalidGasLimit 2000000 1000000 976), None],
     v_workers = [Idle, Idle, Idle], v_seq = Completed, v_crashed = False\<rparr>"


text \<open>
  One worker and two headers: the worker announces the first header and
  receives the second before the announcement is read; the \<^verbatim>\<open>select\<close> then takes
  \<^verbatim>\<open>abort\<close>, and the worker, done with the second header, finds \<^verbatim>\<open>done\<close> full.
\<close>

definition leakCall :: call where
  "leakCall = \<lparr>c_params = params0, c_hashH = numberHash, c_ethash = engine0, c_chain = chain0,
     c_headers = [child0, wildChild], c_seals = [True, True], c_gomaxprocs = 1\<rparr>"

definition leakSchedule :: "event list" where
  "leakSchedule = [Dispatch 0, Compute 0 2000, Send 0, Dispatch 0, Abort, Compute 0 2001]"

definition leakState :: vstate where
  "leakState = \<lparr>v_in = 2, v_out = 0, v_checked = [False, False], v_inputs_nil = True,
     v_errors = [None, Some (InvalidGasLimit 2000000 1000000 976)], v_done = [0],
     v_errorsOut = [], v_workers = [Sending 1], v_seq = Aborted, v_crashed = False\<rparr>"

definition emptyBatch :: call where
  "emptyBatch = batch3\<lparr>c_headers := [], c_seals := []\<rparr>"

section \<open>Verification\<close>

lemmas ex_defs = params0_def config0_def emptyChain_def engine0_def failer7_def parent0_def
  child0_def resealedChild_def
  numberHash_def chainKnowing7_def badChild_def longExtraChild_def futureChild_def
  lowParent_def lowChild_def wrapParent_def wrapChild_def orphan8_def state0_def chain0_def
  lateChild_def

subsection \<open>The gas-limit difference on words\<close>

lemma sint_neg_iff:
  fixes w :: uint64
  shows "sint w < 0 \<longleftrightarrow> 9223372036854775808 \<le> uint w"
proof -
  have "sint w < 0 \<longleftrightarrow> bit w (LENGTH(64) - Suc 0)"
    by (simp only: bit_last_iff)
  also have "\<dots> \<longleftrightarrow> bit (uint w) 63" by (simp add: bit_uint_iff)
  also have "\<dots> \<longleftrightarrow> 2 ^ 63 \<le> uint w"
  proof -
    have "uint w < 2 ^ 64" using uint_bounded [of w] by simp
    then have "uint w div 2 ^ 63 = (if 2 ^ 63 \<le> uint w then 1 else 0)"
      by (auto simp: div_pos_pos_trivial intro!: int_div_pos_eq [where r = "uint w - 2 ^ 63"])
    then show ?thesis by (simp add: bit_iff_odd)
  qed
  finally show ?thesis by simp
qed

text \<open>
  When both gas limits are at most \<open>2^63-1\<close>, the \<^verbatim>\<open>int64\<close> computation of
  \<^verbatim>\<open>diff\<close> does not wrap and yields the absolute difference.
\<close>

lemma gasLimitDiff_abs:
  assumes a: "GasLimit parent \<le> 0x7fffffffffffffff" and b: "GasLimit hdr \<le> 0x7fffffffffffffff"
  shows "uint (gasLimitDiff hdr parent) = \<bar>uint (GasLimit hdr) - uint (GasLimit parent)\<bar>"
proof -
  define x where "x = GasLimit parent"
  define y where "y = GasLimit hdr"
  have ux: "uint x \<le> 9223372036854775807" using a by (simp add: word_le_def x_def)
  have uy: "uint y \<le> 9223372036854775807" using b by (simp add: word_le_def y_def)
  have "uint (let diff = x - y in if sint diff < 0 then diff * (- 1) else diff) = \<bar>uint y - uint x\<bar>"
  proof (cases "uint y \<le> uint x")
    case True
    then have d: "uint (x - y) = uint x - uint y" by (simp add: uint_sub_if')
    have "uint x - uint y \<le> uint x" using uint_ge_0 [of y] by linarith
    with ux d have "\<not> 9223372036854775808 \<le> uint (x - y)" by linarith
    then have "\<not> sint (x - y) < 0" by (simp add: sint_neg_iff)
    then show ?thesis using d True by (simp add: Let_def)
  next
    case False
    then have d: "uint (x - y) = uint x - uint y + 18446744073709551616"
      by (simp add: uint_sub_if')
    have "0 \<le> uint x" by simp
    with uy d have "9223372036854775808 \<le> uint (x - y)" by linarith
    then have n: "sint (x - y) < 0" by (simp add: sint_neg_iff)
    have "uint (y - x) = uint y - uint x" using False by (simp add: uint_sub_if')
    then show ?thesis using n False by (simp add: Let_def)
  qed
  then show ?thesis by (simp add: gasLimitDiff_def x_def y_def)
qed

lemma verifyHeader_not_unknown_ancestor:
  "verifyHeader pr now ethash chn hdr parent seal \<noteq> Some ErrUnknownAncestor"
  by (simp add: verifyHeader_def VerifySeal_def Let_def)

subsection \<open>Single header verification\<close>

text \<open>
  C1, as the code has it. For a parent whose gas limit is at most \<open>2^63-1\<close>,
  \<^verbatim>\<open>verifyHeader(H, P, true)\<close> succeeds if and only if the extra data of \<open>H\<close> is
  within \<^verbatim>\<open>MaximumExtraDataSize\<close>, the timestamp of \<open>H\<close> is at most 15 seconds
  ahead of the clock and greater than the timestamp of \<open>P\<close>, \<open>gasUsed(H) \<le>
  gasLimit(H) \<le> 2^63-1\<close>, \<open>|gasLimit(H) - gasLimit(P)| < gasLimit(P) / divisor\<close>,
  \<open>gasLimit(H)\<close> is at least \<^verbatim>\<open>MinGasLimit\<close>, \<open>number(H) = number(P) + 1\<close>, and
  \<^verbatim>\<open>VerifySeal\<close> accepts \<open>H\<close>. There is no lower bound on \<open>gasUsed(H)\<close>.
\<close>

theorem verifyHeader_succeeds_iff:
  assumes "GasLimit parent \<le> 0x7fffffffffffffff"
  shows "verifyHeader pr now ethash chn hdr parent True = None \<longleftrightarrow>
     (of_nat (length (Extra hdr)) :: uint64) \<le> MaximumExtraDataSize pr
     \<and> Time hdr \<le> now + 15
     \<and> Time hdr > Time parent
     \<and> uint (GasUsed hdr) \<le> uint (GasLimit hdr)
     \<and> uint (GasLimit hdr) \<le> 2 ^ 63 - 1
     \<and> \<bar>uint (GasLimit hdr) - uint (GasLimit parent)\<bar>
         < uint (GasLimit parent) div uint (GasLimitBoundDivisor pr)
     \<and> uint (MinGasLimit pr) \<le> uint (GasLimit hdr)
     \<and> Number hdr = Number parent + 1
     \<and> VerifySeal ethash chn hdr = None"
proof (cases "GasLimit hdr \<le> 0x7fffffffffffffff")
  case True
  have d: "uint (gasLimitDiff hdr parent) = \<bar>uint (GasLimit hdr) - uint (GasLimit parent)\<bar>"
    using assms True by (rule gasLimitDiff_abs)
  have cap: "uint (GasLimit hdr) \<le> 2 ^ 63 - 1"
    using True by (simp add: word_le_def)
  show ?thesis
    using True cap
    by (auto simp: verifyHeader_def Let_def d uint_div_distrib allowedFutureBlockTime_def
        word_le_def word_less_def not_le not_less split: option.splits)
next
  case False
  then have "\<not> uint (GasLimit hdr) \<le> 2 ^ 63 - 1" by (simp add: word_le_def)
  with False show ?thesis
    by (simp add: verifyHeader_def Let_def not_le)
qed

theorem verifyHeader_succeeds_iff_witness:
  "GasLimit parent0 \<le> 0x7fffffffffffffff
   \<and> verifyHeader params0 2000 engine0 emptyChain child0 parent0 True = None
   \<and> \<bar>uint (GasLimit child0) - uint (GasLimit parent0)\<bar>
         < uint (GasLimit parent0) div uint (GasLimitBoundDivisor params0)
   \<and> VerifySeal engine0 emptyChain child0 = None"
  using verifyHeader_succeeds_iff [of parent0 params0 2000 engine0 emptyChain child0]
  by (simp add: ex_defs VerifySeal_def Uint64_def)

text \<open>
  The equivalence as the specification states it fails in both directions:
  a header that has used no gas is accepted, and a header that meets every
  stated condition is rejected for its extra data, for a timestamp ahead of
  the clock, or for a gas limit below \<^verbatim>\<open>MinGasLimit\<close>. On a parent whose gas
  limit is above \<open>2^63-1\<close> the \<^verbatim>\<open>int64\<close> difference wraps, and a header far
  from the parent's gas limit is accepted.
\<close>

theorem verifyHeader_stated_conditions_counterexample:
  "(verifyHeader params0 2000 engine0 emptyChain child0 parent0 True = None
      \<and> \<not> stated_conditions params0 engine0 emptyChain child0 parent0)
   \<and> (stated_conditions params0 engine0 emptyChain longExtraChild parent0
      \<and> verifyHeader params0 2000 engine0 emptyChain longExtraChild parent0 True
          = Some (ExtraDataTooLong 33 32))
   \<and> (stated_conditions params0 engine0 emptyChain futureChild parent0
      \<and> verifyHeader params0 2000 engine0 emptyChain futureChild parent0 True
          = Some ErrFutureBlock)
   \<and> (stated_conditions params0 engine0 emptyChain lowChild lowParent
      \<and> verifyHeader params0 2000 engine0 emptyChain lowChild lowParent True
          = Some (InvalidGasLimit 4096 4097 4))
   \<and> (verifyHeader params0 2000 engine0 emptyChain wrapChild wrapParent True = None
      \<and> \<not> \<bar>uint (GasLimit wrapChild) - uint (GasLimit wrapParent)\<bar>
            < uint (GasLimit wrapParent) div uint (GasLimitBoundDivisor params0))"
  by (simp add: verifyHeader_def VerifySeal_def gasLimitDiff_def Let_def ex_defs Uint64_def
      allowedFutureBlockTime_def stated_conditions_def)

lemma delta_check_agrees:
  assumes "GasLimit parent \<le> 0x7fffffffffffffff" and "GasLimit hdr \<le> 0x7fffffffffffffff"
  shows "(gasLimitDiff hdr parent \<ge> GasLimit parent div GasLimitBoundDivisor pr
           \<or> GasLimit hdr < MinGasLimit pr)
     \<longleftrightarrow> (\<not> \<bar>uint (GasLimit hdr) - uint (GasLimit parent)\<bar>
             < uint (GasLimit parent) div uint (GasLimitBoundDivisor pr)
          \<or> uint (GasLimit hdr) < uint (MinGasLimit pr))"
  by (simp add: word_le_def word_less_def uint_div_distrib gasLimitDiff_abs [OF assms] not_less)

lemma Uint64_eq_iff: "w = Uint64 x \<longleftrightarrow> uint w = \<bar>x\<bar> mod 2 ^ 64"
proof -
  have "uint (Uint64 x) = \<bar>x\<bar> mod 2 ^ 64"
    by (simp add: Uint64_def uint_word_of_int)
  then show ?thesis by (metis word_uint_eq_iff)
qed

text \<open>
  C8, as the code has it. For a parent whose gas limit is at most \<open>2^63-1\<close>,
  \<^verbatim>\<open>verifyHeader\<close> returns the error of the first failing check in this order:
  extra-data size, timestamp not too far ahead of the clock, timestamp greater
  than the parent's, gas-limit ceiling, gas used at most the gas limit,
  gas-limit delta within the tolerance together with the minimum floor, number
  one more than the parent's, and the seal if requested; it succeeds when none
  fails.
\<close>

theorem verifyHeader_checks_in_order:
  assumes "GasLimit parent \<le> 0x7fffffffffffffff"
  shows "verifyHeader pr now ethash chn hdr parent seal
     = first_failure (checks_in_order pr now ethash chn hdr parent seal)"
proof (cases "GasLimit hdr \<le> 0x7fffffffffffffff")
  case True
  note d = delta_check_agrees [OF assms True, of pr]
  from True show ?thesis
    unfolding verifyHeader_def checks_in_order_def Let_def
    by (simp add: d check_extra_data_def check_not_future_def check_after_parent_def
        check_gas_ceiling_def check_gas_used_def check_gas_limit_delta_def check_number_def
        check_seal_def VerifySeal_def Uint64_eq_iff not_le)
next
  case False
  then show ?thesis
    unfolding verifyHeader_def checks_in_order_def Let_def
    by (simp add: check_extra_data_def check_not_future_def check_after_parent_def
        check_gas_ceiling_def not_le)
qed

theorem verifyHeader_checks_in_order_witness:
  "GasLimit parent0 \<le> 0x7fffffffffffffff
   \<and> verifyHeader params0 2000 engine0 emptyChain
       (child0\<lparr>Extra := replicate 33 0, Time := 1000, Number := 9\<rparr>) parent0 True
     = Some (ExtraDataTooLong 33 32)
   \<and> first_failure (checks_in_order params0 2000 engine0 emptyChain
         (child0\<lparr>Time := 1000, Number := 9\<rparr>) parent0 True) = Some errZeroBlockTime
   \<and> first_failure (checks_in_order params0 2000 engine0 emptyChain
         (child0\<lparr>GasLimit := 2000000, Number := 9\<rparr>) parent0 True)
       = Some (InvalidGasLimit 2000000 1000000 976)
   \<and> first_failure (checks_in_order params0 2000 failer7 emptyChain child0 parent0 True)
       = Some errInvalidPoW"
  using verifyHeader_checks_in_order [of parent0 params0 2000 engine0 emptyChain
      "child0\<lparr>Time := 1000, Number := 9\<rparr>" True]
    verifyHeader_checks_in_order [of parent0 params0 2000 engine0 emptyChain
      "child0\<lparr>GasLimit := 2000000, Number := 9\<rparr>" True]
    verifyHeader_checks_in_order [of parent0 params0 2000 failer7 emptyChain child0 True]
  by (simp add: verifyHeader_def VerifySeal_def gasLimitDiff_def Let_def ex_defs Uint64_def
      allowedFutureBlockTime_def)

text \<open>
  On a parent whose gas limit is above \<open>2^63-1\<close> the sixth check is not the
  gas-limit delta of the specification: the difference, taken on \<^verbatim>\<open>int64\<close>,
  wraps, and \<^verbatim>\<open>verifyHeader\<close> accepts a header whose gas limit is far from the
  parent's.
\<close>

theorem verifyHeader_checks_in_order_counterexample:
  "verifyHeader params0 2000 engine0 emptyChain wrapChild wrapParent True = None
   \<and> first_failure (checks_in_order params0 2000 engine0 emptyChain wrapChild wrapParent True)
       = Some (InvalidGasLimit 5000 0xffffffffffffffff 0x3fffffffffffff)"
  by (simp add: verifyHeader_def VerifySeal_def gasLimitDiff_def Let_def ex_defs Uint64_def
      allowedFutureBlockTime_def checks_in_order_def check_extra_data_def check_not_future_def
      check_after_parent_def check_gas_ceiling_def check_gas_used_def check_gas_limit_delta_def
      check_number_def check_seal_def)

text \<open>
  C9. For a header that the chain already has under its hash and number,
  \<^verbatim>\<open>VerifyHeader\<close> returns success at once, whatever the rule checks and the
  seal check would say.
\<close>

theorem VerifyHeader_known_header:
  "GetHeader chn (hashH hdr) (Uint64 (Number hdr)) = Some known
     \<Longrightarrow> VerifyHeader pr hashH now ethash chn hdr seal = None"
  by (simp add: VerifyHeader_def Let_def)

theorem VerifyHeader_known_header_witness:
  "GetHeader chainKnowing7 (numberHash badChild) (Uint64 (Number badChild)) = Some child0
   \<and> VerifyHeader params0 numberHash 2000 engine0 chainKnowing7 badChild True = None
   \<and> verifyHeader params0 2000 engine0 chainKnowing7 badChild parent0 True
       = Some (InvalidGasUsed 2000000 1000000)"
proof -
  have k: "GetHeader chainKnowing7 (numberHash badChild) (Uint64 (Number badChild)) = Some child0"
    by (simp add: ex_defs Uint64_def)
  have v: "verifyHeader params0 2000 engine0 chainKnowing7 badChild parent0 True
       = Some (InvalidGasUsed 2000000 1000000)"
    by (simp add: ex_defs verifyHeader_def allowedFutureBlockTime_def)
  from VerifyHeader_known_header [where chn = chainKnowing7 and hashH = numberHash
      and hdr = badChild and known = child0 and pr = params0 and now = 2000 and ethash = engine0
      and seal = True] k v
  show ?thesis by simp
qed

text \<open>
  C4, as the code has it. \<^verbatim>\<open>VerifyHeader\<close> returns \<^verbatim>\<open>ErrUnknownAncestor\<close> if and
  only if the header is not already in the chain and the chain has no header
  with the header's \<^verbatim>\<open>ParentHash\<close> at \<^verbatim>\<open>number-1\<close>. The worker of the batch
  verifier returns it for entry \<open>index\<close> if and only if no parent is resolved:
  for the first entry from the chain, for a later entry from the preceding
  entry, whose hash must be the entry's \<^verbatim>\<open>ParentHash\<close>. A later entry that
  names the preceding entry and is not yet in the chain is verified against
  the preceding entry.
\<close>

theorem unknown_ancestor_iff:
  "(VerifyHeader pr hashH now ethash chn hdr seal = Some ErrUnknownAncestor \<longleftrightarrow>
      GetHeader chn (hashH hdr) (Uint64 (Number hdr)) = None
      \<and> GetHeader chn (ParentHash hdr) (Uint64 (Number hdr) - 1) = None)
   \<and> (index < length headers \<longrightarrow>
       (verifyHeaderWorker pr hashH now ethash chn headers seals index
          = Inr (Some ErrUnknownAncestor) \<longleftrightarrow>
        (if index = 0
         then GetHeader chn (ParentHash (headers ! 0)) (Uint64 (Number (headers ! 0)) - 1) = None
         else hashH (headers ! (index - 1)) \<noteq> ParentHash (headers ! index))))
   \<and> (0 < index \<and> index < length headers \<and> index < length seals
        \<and> hashH (headers ! (index - 1)) = ParentHash (headers ! index)
        \<and> GetHeader chn (hashH (headers ! index)) (Uint64 (Number (headers ! index))) = None
      \<longrightarrow> verifyHeaderWorker pr hashH now ethash chn headers seals index
            = Inr (verifyHeader pr now ethash chn (headers ! index) (headers ! (index - 1))
                     (seals ! index)))"
proof -
  have single: "VerifyHeader pr hashH now ethash chn hdr seal = Some ErrUnknownAncestor \<longleftrightarrow>
      GetHeader chn (hashH hdr) (Uint64 (Number hdr)) = None
      \<and> GetHeader chn (ParentHash hdr) (Uint64 (Number hdr) - 1) = None"
    by (auto simp: VerifyHeader_def Let_def verifyHeader_not_unknown_ancestor
        split: option.splits)
  have batch: "verifyHeaderWorker pr hashH now ethash chn headers seals index
          = Inr (Some ErrUnknownAncestor) \<longleftrightarrow>
        (if index = 0
         then GetHeader chn (ParentHash (headers ! 0)) (Uint64 (Number (headers ! 0)) - 1) = None
         else hashH (headers ! (index - 1)) \<noteq> ParentHash (headers ! index))"
    if "index < length headers"
    using that
    by (auto simp: verifyHeaderWorker_def resolveParent_def verifyHeader_not_unknown_ancestor
        split: option.splits)
  have linked: "verifyHeaderWorker pr hashH now ethash chn headers seals index
            = Inr (verifyHeader pr now ethash chn (headers ! index) (headers ! (index - 1))
                     (seals ! index))"
    if "0 < index" "index < length headers" "index < length seals"
      "hashH (headers ! (index - 1)) = ParentHash (headers ! index)"
      "GetHeader chn (hashH (headers ! index)) (Uint64 (Number (headers ! index))) = None"
    using that by (simp add: verifyHeaderWorker_def resolveParent_def)
  from single batch linked show ?thesis by blast
qed

theorem unknown_ancestor_iff_witness:
  "1 < length [child0, orphan8]
   \<and> verifyHeaderWorker params0 numberHash 2000 engine0 emptyChain [child0, orphan8] [True, True] 1
       = Inr (Some ErrUnknownAncestor)
   \<and> numberHash ([child0, orphan8] ! 0) \<noteq> ParentHash ([child0, orphan8] ! 1)
   \<and> numberHash ([child0, wildChild] ! 0) = ParentHash ([child0, wildChild] ! 1)
   \<and> verifyHeaderWorker params0 numberHash 2000 engine0 emptyChain [child0, wildChild]
         [True, True] 1
       = Inr (verifyHeader params0 2000 engine0 emptyChain wildChild child0 True)
   \<and> verifyHeader params0 2000 engine0 emptyChain wildChild child0 True
       = Some (InvalidGasLimit 2000000 1000000 976)"
  using unknown_ancestor_iff [of params0 numberHash 2000 engine0 emptyChain child0 True 1
      "[child0, orphan8]" "[True, True]"]
    unknown_ancestor_iff [of params0 numberHash 2000 engine0 emptyChain child0 True 1
      "[child0, wildChild]" "[True, True]"]
  by (simp add: ex_defs wildChild_def Uint64_def verifyHeader_def gasLimitDiff_def
      allowedFutureBlockTime_def)

text \<open>
  A header that the chain already has, and whose parent the chain does not
  have: \<^verbatim>\<open>VerifyHeader\<close> returns success, not \<^verbatim>\<open>ErrUnknownAncestor\<close>.
\<close>

theorem VerifyHeader_known_orphan_counterexample:
  "GetHeader chainKnowing7 (ParentHash child0) (Uint64 (Number child0) - 1) = None
   \<and> VerifyHeader params0 numberHash 2000 engine0 chainKnowing7 child0 True = None"
  by (simp add: VerifyHeader_def Let_def ex_defs Uint64_def)

text \<open>
  C5, as the code has it. With \<^verbatim>\<open>checkSeal = false\<close> the seal check is skipped:
  \<^verbatim>\<open>verifyHeader\<close> never returns the seal error. With \<^verbatim>\<open>checkSeal = true\<close> it
  returns what it returns without the seal check when that is an error, and
  otherwise the verdict of the engine's seal check, which reads no seal: it is
  the seal error exactly when the number of the block is \<^verbatim>\<open>fakeFail\<close>.
\<close>

theorem verifyHeader_seal_check_by_number:
  "verifyHeader pr now ethash chn hdr parent False \<noteq> Some errInvalidPoW
   \<and> verifyHeader pr now ethash chn hdr parent True
       = (case verifyHeader pr now ethash chn hdr parent False of
            Some err \<Rightarrow> Some err
          | None \<Rightarrow>
              if uint (fakeFail ethash) = \<bar>Number hdr\<bar> mod 2 ^ 64 then Some errInvalidPoW
              else None)"
  by (simp add: verifyHeader_def VerifySeal_def Let_def Uint64_eq_iff)

theorem verifyHeader_seal_check_by_number_witness:
  "verifyHeader params0 2000 failer7 emptyChain child0 parent0 False = None
   \<and> verifyHeader params0 2000 failer7 emptyChain child0 parent0 True = Some errInvalidPoW
   \<and> verifyHeader params0 2000 failer7 emptyChain (child0\<lparr>Number := 5\<rparr>) parent0 True
       = Some ErrInvalidNumber"
  using verifyHeader_seal_check_by_number [of params0 2000 failer7 emptyChain child0 parent0]
    verifyHeader_seal_check_by_number [of params0 2000 failer7 emptyChain
      "child0\<lparr>Number := 5\<rparr>" parent0]
  by (simp add: verifyHeader_def gasLimitDiff_def Let_def ex_defs allowedFutureBlockTime_def)

text \<open>
  No seal is validated. One and the same header is accepted with
  \<^verbatim>\<open>checkSeal = true\<close> by the engine whose \<^verbatim>\<open>fakeFail\<close> is 0 and rejected with the
  seal error by the engine whose \<^verbatim>\<open>fakeFail\<close> is the header's number, and neither
  verdict changes when every field that could carry a seal is replaced. So,
  whatever makes a seal valid: if the seal of this header is not valid, the
  first engine accepts a header with an invalid seal; if it is valid, the
  second engine reports a valid seal as invalid.
\<close>

theorem seal_verdict_counterexample:
  "verifyHeader params0 2000 engine0 emptyChain child0 parent0 True = None
   \<and> verifyHeader params0 2000 engine0 emptyChain resealedChild parent0 True = None
   \<and> verifyHeader params0 2000 failer7 emptyChain child0 parent0 True = Some errInvalidPoW
   \<and> verifyHeader params0 2000 failer7 emptyChain resealedChild parent0 True
       = Some errInvalidPoW"
  by (simp add: verifyHeader_def VerifySeal_def gasLimitDiff_def Let_def ex_defs Uint64_def
      allowedFutureBlockTime_def)

subsection \<open>Finalisation\<close>



text \<open>
  C10. \<^verbatim>\<open>accumulateRewards\<close> changes the balance of the header's coinbase and
  nothing else: every other balance and the rest of the state are as before,
  and so is the header.
\<close>

theorem accumulateRewards_frame:
  assumes "accumulateRewards config st hdr = (st', hdr')"
  shows "hdr' = hdr
     \<and> Other st' = Other st
     \<and> (\<forall>a. a \<noteq> Coinbase hdr \<longrightarrow> Balance st' a = Balance st a)
     \<and> Balance st' (Coinbase hdr) \<noteq> Balance st (Coinbase hdr)"
  using assms
  by (auto simp: accumulateRewards_def AddBalance_def Let_def FrontierBlockReward_def
      ByzantiumBlockReward_def split: if_splits)

theorem accumulateRewards_frame_witness:
  "snd (accumulateRewards config0 state0 child0) = child0
   \<and> Balance (fst (accumulateRewards config0 state0 child0)) 8 = Balance state0 8
   \<and> Balance (fst (accumulateRewards config0 state0 child0)) (Coinbase child0)
       \<noteq> Balance state0 (Coinbase child0)"
  using accumulateRewards_frame [of config0 state0 child0
      "fst (accumulateRewards config0 state0 child0)" "snd (accumulateRewards config0 state0 child0)"]
  by (simp add: ex_defs)

subsection \<open>The batch verifier: order of the results\<close>

lemma verdict_at_mono: "verdict_at c T i r \<Longrightarrow> T \<subseteq> T' \<Longrightarrow> verdict_at c T' i r"
  by (auto simp: verdict_at_def)

lemma inv_mono: "order_inv c T s \<Longrightarrow> T \<subseteq> T' \<Longrightarrow> order_inv c T' s"
  unfolding order_inv_def by (meson verdict_at_mono)

lemma init_inv: "order_inv c {} (VerifyHeaders_init c)"
  by (simp add: order_inv_def VerifyHeaders_init_def Let_def)

lemma drain_inv:
  assumes "length checked = n" "length errs = n" "out < n" "length sent = out"
    and "\<forall>j < length sent. P j (sent ! j)"
    and "\<forall>j < n. checked ! j \<longrightarrow> P j (errs ! j)"
    and "drain n checked errs out sent = (out', sent', e)"
  shows "e \<noteq> Panicked \<and> (\<forall>j < length sent'. P j (sent' ! j))
     \<and> (e = Blocked \<longrightarrow> length sent' = out' \<and> out' < n \<and> \<not> checked ! out')
     \<and> (e = Returned \<longrightarrow> length sent' = n)
     \<and> length sent' \<le> n \<and> (\<exists>ext. sent' = sent @ ext)"
  using assms
proof (induction n checked errs out sent rule: drain.induct)
  case (1 n checked errs out sent)
  show ?case
  proof (cases "checked ! out")
    case False
    with "1.prems" show ?thesis by (simp add: drain.simps [of n checked errs out sent])
  next
    case True
    note chk = True
    have snoc: "\<forall>j < length (sent @ [errs ! out]). P j ((sent @ [errs ! out]) ! j)"
      using "1.prems" chk by (auto simp: nth_append less_Suc_eq)
    show ?thesis
    proof (cases "int out = int n - 1")
      case True
      then have "Suc out = n" by linarith
      with "1.prems" chk snoc True show ?thesis
        by (auto simp: drain.simps [of n checked errs out sent])
    next
      case False
      then have lt: "out + 1 < n" using "1.prems"(3) by linarith
      have d: "drain n checked errs (out + 1) (sent @ [errs ! out]) = (out', sent', e)"
        using "1.prems" chk False by (simp add: drain.simps [of n checked errs out sent])
      have "e \<noteq> Panicked \<and> (\<forall>j < length sent'. P j (sent' ! j))
         \<and> (e = Blocked \<longrightarrow> length sent' = out' \<and> out' < n \<and> \<not> checked ! out')
         \<and> (e = Returned \<longrightarrow> length sent' = n)
         \<and> length sent' \<le> n \<and> (\<exists>ext. sent' = (sent @ [errs ! out]) @ ext)"
        using "1.prems" chk False lt snoc d
        by (intro "1.IH") simp_all
      then show ?thesis by auto
    qed
  qed
qed

lemma step_inv:
  assumes i: "order_inv c T s" and st: "step c ev s = Some s'"
  shows "order_inv c (T \<union> set (clock_readings [ev])) s'"
proof (cases ev)
  case (Dispatch w)
  with st have s': "s' = s\<lparr>v_workers := (v_workers s)[w := Running (v_in s)],
        v_in := v_in s + 1, v_inputs_nil := (v_in s + 1 = length (c_headers c))\<rparr>"
    and w: "w < length (v_workers s)"
    by (auto simp: step_def split: if_splits)
  from i w show ?thesis
    unfolding s' Dispatch order_inv_def by (auto simp: nth_list_update)
next
  case (Compute w now)
  let ?T = "insert now T"
  have i': "order_inv c ?T s" using i by (rule inv_mono) auto
  from st Compute obtain index where run: "v_workers s ! w = Running index"
    and w: "w < length (v_workers s)"
    by (auto simp: step_def split: if_splits wstate.splits)
  show ?thesis
  proof (cases "worker_verdict c now index")
    case (Inl p)
    with st Compute run w have "s' = s\<lparr>v_crashed := True\<rparr>"
      by (auto simp: step_def worker_verdict_def split: if_splits)
    with i' Compute show ?thesis by (simp add: order_inv_def)
  next
    case (Inr r)
    show ?thesis
    proof (cases "index < length (v_errors s)")
      case False
      with st Compute run w Inr have "s' = s\<lparr>v_crashed := True\<rparr>"
        by (auto simp: step_def worker_verdict_def split: if_splits)
      with i' Compute show ?thesis by (simp add: order_inv_def)
    next
      case True
      with st Compute run w Inr have s': "s' = s\<lparr>v_errors := (v_errors s)[index := r],
            v_workers := (v_workers s)[w := Sending index]\<rparr>"
        by (auto simp: step_def worker_verdict_def split: if_splits)
      have v: "verdict_at c ?T index r"
        using Inr by (auto simp: verdict_at_def)
      have upd: "\<And>j. j < length (c_headers c) \<Longrightarrow> verdict_at c ?T j (v_errors s ! j)
          \<Longrightarrow> verdict_at c ?T j ((v_errors s)[index := r] ! j)"
        using v True by (auto simp: nth_list_update)
      from i' True v upd w show ?thesis
        unfolding s' Compute order_inv_def
        by (auto simp: nth_list_update)
    qed
  qed
next
  case (Send w)
  with st obtain index where snd: "v_workers s ! w = Sending index"
    and w: "w < length (v_workers s)"
    and s': "s' = s\<lparr>v_done := v_done s @ [index], v_workers := (v_workers s)[w := Idle]\<rparr>"
    by (auto simp: step_def split: if_splits wstate.splits)
  from i snd w show ?thesis
    unfolding s' Send order_inv_def by (auto simp: nth_list_update)
next
  case Recv
  with st obtain index rest where d: "v_done s = index # rest" and sel: "v_seq s = Selecting"
    by (auto simp: step_def split: if_splits list.splits)
  from i d have idx: "index < length (c_headers c)"
    and vi: "verdict_at c T index (v_errors s ! index)"
    by (auto simp: order_inv_def)
  let ?checked = "(v_checked s)[index := True]"
  obtain out sent e where dr:
    "drain (length (c_headers c)) ?checked (v_errors s) (v_out s) (v_errorsOut s) = (out, sent, e)"
    by (cases "drain (length (c_headers c)) ?checked (v_errors s) (v_out s) (v_errorsOut s)") auto
  from st Recv d sel idx i dr have s': "s' = s\<lparr>v_done := rest, v_checked := ?checked,
        v_out := out, v_errorsOut := sent,
        v_seq := (if e = Returned then Completed else Selecting),
        v_crashed := (e = Panicked)\<rparr>"
    by (auto simp: step_def order_inv_def Let_def split: if_splits)
  have chk: "\<forall>j < length (c_headers c). ?checked ! j \<longrightarrow> verdict_at c T j (v_errors s ! j)"
    using i vi idx by (auto simp: order_inv_def nth_list_update)
  have res: "e \<noteq> Panicked \<and> (\<forall>j < length sent. verdict_at c T j (sent ! j))
     \<and> (e = Blocked \<longrightarrow> length sent = out \<and> out < length (c_headers c) \<and> \<not> ?checked ! out)
     \<and> (e = Returned \<longrightarrow> length sent = length (c_headers c))
     \<and> length sent \<le> length (c_headers c) \<and> (\<exists>ext. sent = v_errorsOut s @ ext)"
    using i sel chk dr
    by (intro drain_inv [where checked = ?checked and errs = "v_errors s" and out = "v_out s"])
      (auto simp: order_inv_def)
  have e_cases: "e = Blocked \<or> e = Returned" using res by (cases e) auto
  from i d res chk e_cases show ?thesis
    unfolding s' Recv order_inv_def by auto
next
  case Abort
  with st have s': "s' = s\<lparr>v_seq := Aborted\<rparr>"
    by (auto simp: step_def split: if_splits)
  from i show ?thesis unfolding s' Abort order_inv_def by auto
next
  case (Exit w)
  with st have s': "s' = s\<lparr>v_workers := (v_workers s)[w := Exited]\<rparr>"
    and w: "w < length (v_workers s)"
    by (auto simp: step_def split: if_splits)
  from i w show ?thesis unfolding s' Exit order_inv_def by (auto simp: nth_list_update)
qed

lemma run_inv:
  "order_inv c T s \<Longrightarrow> run c evs s = Some s' \<Longrightarrow> order_inv c (T \<union> set (clock_readings evs)) s'"
proof (induction evs arbitrary: T s)
  case Nil
  then show ?case by simp
next
  case (Cons ev evs)
  from Cons.prems(2) obtain s1 where s1: "step c ev s = Some s1" and r: "run c evs s1 = Some s'"
    by (auto split: option.splits)
  from step_inv [OF Cons.prems(1) s1] have "order_inv c (T \<union> set (clock_readings [ev])) s1" .
  from Cons.IH [OF this r]
  have "order_inv c (T \<union> set (clock_readings [ev]) \<union> set (clock_readings evs)) s'" .
  moreover have "T \<union> set (clock_readings [ev]) \<union> set (clock_readings evs)
      = T \<union> set (clock_readings (ev # evs))"
    by (cases ev) auto
  ultimately show ?case by simp
qed

lemma drain_appends:
  "drain n checked errs out sent = (out', sent', e) \<Longrightarrow> \<exists>ext. sent' = sent @ ext"
proof (induction n checked errs out sent rule: drain.induct)
  case (1 n checked errs out sent)
  show ?case
  proof (cases "out < length checked \<and> checked ! out \<and> out < length errs \<and> int out \<noteq> int n - 1")
    case True
    with "1.prems" have "drain n checked errs (out + 1) (sent @ [errs ! out]) = (out', sent', e)"
      by (simp add: drain.simps [of n checked errs out sent])
    with True have "\<exists>ext. sent' = (sent @ [errs ! out]) @ ext"
      by (intro "1.IH") auto
    then show ?thesis by auto
  next
    case False
    with "1.prems" show ?thesis
      by (auto simp: drain.simps [of n checked errs out sent] split: if_splits)
  qed
qed

lemma step_sent_grows:
  assumes "step c ev s = Some s'"
  shows "\<exists>ext. v_errorsOut s' = v_errorsOut s @ ext"
proof (cases ev)
  case Recv
  with assms obtain index rest where d: "v_done s = index # rest"
    by (auto simp: step_def split: if_splits list.splits)
  obtain out sent e where dr:
    "drain (length (c_headers c)) ((v_checked s)[index := True]) (v_errors s) (v_out s)
       (v_errorsOut s) = (out, sent, e)"
    by (metis prod_cases3)
  from drain_appends [OF dr] obtain ext where "sent = v_errorsOut s @ ext" ..
  with assms Recv d dr show ?thesis
    by (auto simp: step_def Let_def split: if_splits)
qed (use assms in \<open>auto simp: step_def split: if_splits wstate.splits sum.splits\<close>)

lemma run_sent_grows:
  "run c evs s = Some s' \<Longrightarrow> \<exists>ext. v_errorsOut s' = v_errorsOut s @ ext"
proof (induction evs arbitrary: s)
  case Nil
  then show ?case by simp
next
  case (Cons ev evs)
  then obtain s1 where s1: "step c ev s = Some s1" and r: "run c evs s1 = Some s'"
    by (auto split: option.splits)
  from step_sent_grows [OF s1] Cons.IH [OF r] show ?case by auto
qed

lemma run_append:
  "run c (evs1 @ evs2) s = (case run c evs1 s of None \<Rightarrow> None | Some s1 \<Rightarrow> run c evs2 s1)"
  by (induction evs1 arbitrary: s) (auto split: option.splits)

lemma run_from_init:
  assumes "run c evs (VerifyHeaders_init c) = Some s"
  shows "order_inv c (set (clock_readings evs)) s"
  using run_inv [OF init_inv assms] by simp

lemma step_after_return:
  assumes "step c ev s = Some s'" and "v_seq s \<noteq> Selecting"
  shows "v_errorsOut s' = v_errorsOut s \<and> v_seq s' = v_seq s"
  using assms by (cases ev) (auto simp: step_def split: if_splits wstate.splits sum.splits)

lemma no_results_after_return:
  "run c evs s = Some s' \<Longrightarrow> v_seq s \<noteq> Selecting
     \<Longrightarrow> v_errorsOut s' = v_errorsOut s \<and> v_seq s' = v_seq s"
proof (induction evs arbitrary: s)
  case Nil
  then show ?case by simp
next
  case (Cons ev evs)
  then obtain s1 where s1: "step c ev s = Some s1" and r: "run c evs s1 = Some s'"
    by (auto split: option.splits)
  from step_after_return [OF s1 Cons.prems(2)] Cons.IH [OF r] Cons.prems(2) show ?case by simp
qed

subsection \<open>The batch verifier: progress\<close>

lemma init_inv2: "account_inv c (VerifyHeaders_init c)"
  by (simp add: account_inv_def VerifyHeaders_init_def Let_def)

lemma in_flight_update_other:
  "in_flight ws i \<Longrightarrow> w < length ws \<Longrightarrow> ws ! w \<noteq> Running i \<Longrightarrow> ws ! w \<noteq> Sending i
     \<Longrightarrow> in_flight (ws[w := x]) i"
  unfolding in_flight_def by (metis length_list_update nth_list_update_neq)

lemma in_flight_update_self:
  "w < length ws \<Longrightarrow> x = Running i \<or> x = Sending i \<Longrightarrow> in_flight (ws[w := x]) i"
  unfolding in_flight_def by (metis length_list_update nth_list_update_eq)

lemma verifyHeaderWorker_no_panic:
  "index < length headers \<Longrightarrow> index < length seals
     \<Longrightarrow> \<exists>r. verifyHeaderWorker pr hashH now ethash chn headers seals index = Inr r"
  by (simp add: verifyHeaderWorker_def split: option.splits)

lemma step_inv2:
  assumes i: "order_inv c T s" and a: "account_inv c s" and st: "step c ev s = Some s'"
  shows "account_inv c s'"
proof (cases ev)
  case (Dispatch w)
  with st have s': "s' = s\<lparr>v_workers := (v_workers s)[w := Running (v_in s)],
        v_in := v_in s + 1, v_inputs_nil := (v_in s + 1 = length (c_headers c))\<rparr>"
    and w: "w < length (v_workers s)" and idle: "v_workers s ! w = Idle"
    and sel: "v_seq s = Selecting" and nn: "\<not> v_inputs_nil s"
    by (auto simp: step_def split: if_splits)
  have acc: "in_flight ((v_workers s)[w := Running (v_in s)]) i" if "in_flight (v_workers s) i" for i
    using that w idle by (intro in_flight_update_other) auto
  have new: "in_flight ((v_workers s)[w := Running (v_in s)]) (v_in s)"
    using w by (intro in_flight_update_self) auto
  from a w idle sel nn acc new show ?thesis
    unfolding s' account_inv_def
    by (auto simp: nth_list_update less_Suc_eq)
next
  case (Compute w now)
  from st Compute obtain index where run: "v_workers s ! w = Running index"
    and w: "w < length (v_workers s)"
    by (auto simp: step_def split: if_splits wstate.splits)
  from st Compute run w consider "s' = s\<lparr>v_crashed := True\<rparr>"
    | r where "s' = s\<lparr>v_errors := (v_errors s)[index := r],
            v_workers := (v_workers s)[w := Sending index]\<rparr>"
    by (auto simp: step_def split: if_splits sum.splits)
  then show ?thesis
  proof cases
    case 1
    with a show ?thesis by (simp add: account_inv_def)
  next
    case (2 r)
    have acc: "in_flight ((v_workers s)[w := Sending index]) i" if "in_flight (v_workers s) i" for i
    proof (cases "i = index")
      case True
      with w show ?thesis by (intro in_flight_update_self) auto
    next
      case False
      with that w run show ?thesis by (intro in_flight_update_other) auto
    qed
    from a w run acc show ?thesis
      unfolding 2 account_inv_def
      by (auto simp: nth_list_update)
  qed
next
  case (Send w)
  with st obtain index where snd: "v_workers s ! w = Sending index"
    and w: "w < length (v_workers s)"
    and s': "s' = s\<lparr>v_done := v_done s @ [index], v_workers := (v_workers s)[w := Idle]\<rparr>"
    by (auto simp: step_def split: if_splits wstate.splits)
  have acc: "i = index \<or> in_flight ((v_workers s)[w := Idle]) i" if "in_flight (v_workers s) i" for i
  proof (cases "i = index")
    case False
    with that w snd have "in_flight ((v_workers s)[w := Idle]) i"
      by (intro in_flight_update_other) auto
    then show ?thesis ..
  qed simp
  from a w snd acc show ?thesis
    unfolding s' account_inv_def
    by (auto simp: nth_list_update)
next
  case Recv
  with st obtain index rest where d: "v_done s = index # rest" and sel: "v_seq s = Selecting"
    by (auto simp: step_def split: if_splits list.splits)
  from i d have idx: "index < length (c_headers c)"
    and vi: "verdict_at c T index (v_errors s ! index)"
    by (auto simp: order_inv_def)
  let ?checked = "(v_checked s)[index := True]"
  obtain out sent e where dr:
    "drain (length (c_headers c)) ?checked (v_errors s) (v_out s) (v_errorsOut s) = (out, sent, e)"
    by (metis prod_cases3)
  from st Recv d sel idx i dr have s': "s' = s\<lparr>v_done := rest, v_checked := ?checked,
        v_out := out, v_errorsOut := sent,
        v_seq := (if e = Returned then Completed else Selecting),
        v_crashed := (e = Panicked)\<rparr>"
    by (auto simp: step_def order_inv_def Let_def split: if_splits)
  have chk: "\<forall>j < length (c_headers c). ?checked ! j \<longrightarrow> verdict_at c T j (v_errors s ! j)"
    using i vi idx by (auto simp: order_inv_def nth_list_update)
  have res: "e \<noteq> Panicked \<and> (\<forall>j < length sent. verdict_at c T j (sent ! j))
     \<and> (e = Blocked \<longrightarrow> length sent = out \<and> out < length (c_headers c) \<and> \<not> ?checked ! out)
     \<and> (e = Returned \<longrightarrow> length sent = length (c_headers c))
     \<and> length sent \<le> length (c_headers c) \<and> (\<exists>ext. sent = v_errorsOut s @ ext)"
    using i sel chk dr
    by (intro drain_inv [where checked = ?checked and errs = "v_errors s" and out = "v_out s"])
      (auto simp: order_inv_def)
  have e_cases: "e = Blocked \<or> e = Returned" using res by (cases e) auto
  have len: "length (v_checked s) = length (c_headers c)" using i by (simp add: order_inv_def)
  have acc: "?checked ! i \<or> i \<in> set rest \<or> in_flight (v_workers s) i"
    if "i < v_in s" for i
  proof -
    from a that have "v_checked s ! i \<or> i \<in> set (v_done s) \<or> in_flight (v_workers s) i"
      by (simp add: account_inv_def)
    moreover have "i < length (v_checked s)" using that a len by (simp add: account_inv_def)
    ultimately show ?thesis using d idx len by (auto simp: nth_list_update)
  qed
  from a sel res e_cases acc show ?thesis
    unfolding s' account_inv_def by auto
next
  case Abort
  with st have s': "s' = s\<lparr>v_seq := Aborted\<rparr>"
    by (auto simp: step_def split: if_splits)
  from a show ?thesis unfolding s' account_inv_def by auto
next
  case (Exit w)
  with st have s': "s' = s\<lparr>v_workers := (v_workers s)[w := Exited]\<rparr>"
    and w: "w < length (v_workers s)" and idle: "v_workers s ! w = Idle"
    and ns: "v_seq s \<noteq> Selecting"
    by (auto simp: step_def split: if_splits)
  have acc: "in_flight ((v_workers s)[w := Exited]) i" if "in_flight (v_workers s) i" for i
    using that w idle by (intro in_flight_update_other) auto
  from a w idle ns acc show ?thesis
    unfolding s' account_inv_def
    by (auto simp: nth_list_update)
qed

lemma step_no_crash:
  assumes i: "order_inv c T s" and a: "account_inv c s" and st: "step c ev s = Some s'"
    and seals: "length (c_headers c) \<le> length (c_seals c)"
  shows "\<not> v_crashed s'"
proof -
  from st have nc: "\<not> v_crashed s" by (auto simp: step_def split: if_splits)
  show ?thesis
  proof (cases ev)
    case (Compute w now)
    from st Compute obtain index where run: "v_workers s ! w = Running index"
      and w: "w < length (v_workers s)"
      by (auto simp: step_def split: if_splits wstate.splits)
    from a run w have idx: "index < length (c_headers c)" by (auto simp: account_inv_def)
    with seals have "index < length (c_seals c)" by simp
    from verifyHeaderWorker_no_panic [OF idx this]
    obtain r where "worker_verdict c now index = Inr r"
      unfolding worker_verdict_def by blast
    with st Compute run w idx i nc show ?thesis
      by (auto simp: step_def worker_verdict_def order_inv_def split: if_splits)
  next
    case Recv
    with st obtain index rest where d: "v_done s = index # rest" and sel: "v_seq s = Selecting"
      by (auto simp: step_def split: if_splits list.splits)
    from i d have idx: "index < length (c_headers c)"
      and vi: "verdict_at c T index (v_errors s ! index)"
      by (auto simp: order_inv_def)
    let ?checked = "(v_checked s)[index := True]"
    obtain out sent e where dr:
      "drain (length (c_headers c)) ?checked (v_errors s) (v_out s) (v_errorsOut s) = (out, sent, e)"
      by (metis prod_cases3)
    have chk: "\<forall>j < length (c_headers c). ?checked ! j \<longrightarrow> verdict_at c T j (v_errors s ! j)"
      using i vi idx by (auto simp: order_inv_def nth_list_update)
    have "e \<noteq> Panicked \<and> (\<forall>j < length sent. verdict_at c T j (sent ! j))
       \<and> (e = Blocked \<longrightarrow> length sent = out \<and> out < length (c_headers c) \<and> \<not> ?checked ! out)
       \<and> (e = Returned \<longrightarrow> length sent = length (c_headers c))
       \<and> length sent \<le> length (c_headers c) \<and> (\<exists>ext. sent = v_errorsOut s @ ext)"
      using i sel chk dr
      by (intro drain_inv [where checked = ?checked and errs = "v_errors s" and out = "v_out s"])
        (auto simp: order_inv_def)
    with st Recv d sel idx i dr show ?thesis
      by (auto simp: step_def order_inv_def Let_def split: if_splits)
  qed (use st nc in \<open>auto simp: step_def split: if_splits wstate.splits\<close>)
qed

lemma all_checked_when_idle:
  assumes a: "account_inv c s" and d: "v_done s = []"
    and idle: "\<forall>w < length (v_workers s). v_workers s ! w = Idle"
    and j: "j < v_in s"
  shows "v_checked s ! j"
proof -
  from idle have "\<not> in_flight (v_workers s) j" by (auto simp: in_flight_def)
  with a d j show ?thesis by (auto simp: account_inv_def)
qed

lemma progress:
  assumes i: "order_inv c T s" and a: "account_inv c s" and sel: "v_seq s = Selecting"
    and nc: "\<not> v_crashed s" and procs: "1 \<le> c_gomaxprocs c"
  shows "\<exists>ev. ev \<noteq> Abort \<and> step c ev s \<noteq> None"
proof -
  from i sel have out: "v_out s < length (c_headers c)" by (simp add: order_inv_def)
  then have n: "0 < length (c_headers c)" by linarith
  with a have lw: "length (v_workers s) = workers c" by (simp add: account_inv_def)
  from n procs have wpos: "0 < workers c" by (simp add: workers_def)
  show ?thesis
  proof (cases "v_done s")
    case (Cons index rest)
    with sel nc have "step c Recv s \<noteq> None" by (simp add: step_def Let_def split: prod.splits)
    then show ?thesis by blast
  next
    case Nil
    show ?thesis
    proof (cases "\<exists>w < length (v_workers s). \<exists>k. v_workers s ! w = Running k")
      case True
      then obtain w k where "w < length (v_workers s)" "v_workers s ! w = Running k" by blast
      with nc have "step c (Compute w 0) s \<noteq> None"
        by (simp add: step_def split: sum.splits)
      then show ?thesis by blast
    next
      case nr: False
      show ?thesis
      proof (cases "\<exists>w < length (v_workers s). \<exists>k. v_workers s ! w = Sending k")
        case True
        then obtain w k where "w < length (v_workers s)" "v_workers s ! w = Sending k" by blast
        with nc Nil wpos have "step c (Send w) s \<noteq> None"
          by (simp add: step_def)
        then show ?thesis by blast
      next
        case ns: False
        have idle: "\<forall>w < length (v_workers s). v_workers s ! w = Idle"
        proof (intro allI impI)
          fix w assume w: "w < length (v_workers s)"
          with a sel have "v_workers s ! w \<noteq> Exited" by (simp add: account_inv_def)
          with nr ns w show "v_workers s ! w = Idle" by (cases "v_workers s ! w") auto
        qed
        have "\<not> v_inputs_nil s"
        proof
          assume "v_inputs_nil s"
          with a sel have "v_in s = length (c_headers c)" by (simp add: account_inv_def)
          with out have "v_out s < v_in s" by simp
          from all_checked_when_idle [OF a Nil idle this] a sel show False
            by (simp add: account_inv_def)
        qed
        with sel nc idle lw wpos have "step c (Dispatch 0) s \<noteq> None"
          by (simp add: step_def)
        then show ?thesis by blast
      qed
    qed
  qed
qed

lemma count_update:
  "i < length xs \<Longrightarrow>
     length (filter P (xs[i := x])) + (if P (xs ! i) then 1 else 0)
       = length (filter P xs) + (if P x then 1 else 0)"
proof (induction xs arbitrary: i)
  case Nil
  then show ?case by simp
next
  case (Cons y ys)
  show ?case
  proof (cases i)
    case 0
    then show ?thesis by simp
  next
    case (Suc k)
    with Cons.prems have "k < length ys" by simp
    from Cons.IH [OF this] Suc show ?thesis by simp
  qed
qed

lemma step_remaining:
  assumes a: "account_inv c s" and st: "step c ev s = Some s'" and ev: "ev \<noteq> Abort"
    and sel: "v_seq s = Selecting" and nc: "\<not> v_crashed s'"
  shows "Suc (remaining c s') = remaining c s"
proof (cases ev)
  case (Dispatch w)
  with st have s': "s' = s\<lparr>v_workers := (v_workers s)[w := Running (v_in s)],
        v_in := v_in s + 1, v_inputs_nil := (v_in s + 1 = length (c_headers c))\<rparr>"
    and w: "w < length (v_workers s)" and idle: "v_workers s ! w = Idle"
    and nn: "\<not> v_inputs_nil s"
    by (auto simp: step_def split: if_splits)
  from a sel nn have lt: "v_in s < length (c_headers c)" by (auto simp: account_inv_def)
  from count_update [OF w, of is_running "Running (v_in s)"] idle
  have r: "length (filter is_running ((v_workers s)[w := Running (v_in s)]))
      = length (filter is_running (v_workers s)) + 1"
    by (simp add: is_running_def)
  from count_update [OF w, of is_sending "Running (v_in s)"] idle
  have sn: "length (filter is_sending ((v_workers s)[w := Running (v_in s)]))
      = length (filter is_sending (v_workers s))"
    by (simp add: is_sending_def)
  from lt show ?thesis by (simp add: s' remaining_def r sn)
next
  case (Compute w now)
  from st Compute obtain index where run: "v_workers s ! w = Running index"
    and w: "w < length (v_workers s)"
    by (auto simp: step_def split: if_splits wstate.splits)
  from st Compute run w nc obtain r where s': "s' = s\<lparr>v_errors := (v_errors s)[index := r],
            v_workers := (v_workers s)[w := Sending index]\<rparr>"
    by (auto simp: step_def split: if_splits sum.splits)
  from count_update [OF w, of is_running "Sending index"] run
  have r: "length (filter is_running ((v_workers s)[w := Sending index])) + 1
      = length (filter is_running (v_workers s))"
    by (simp add: is_running_def)
  from count_update [OF w, of is_sending "Sending index"] run
  have sn: "length (filter is_sending ((v_workers s)[w := Sending index]))
      = length (filter is_sending (v_workers s)) + 1"
    by (simp add: is_sending_def)
  from r sn show ?thesis by (simp add: s' remaining_def)
next
  case (Send w)
  with st obtain index where snd: "v_workers s ! w = Sending index"
    and w: "w < length (v_workers s)"
    and s': "s' = s\<lparr>v_done := v_done s @ [index], v_workers := (v_workers s)[w := Idle]\<rparr>"
    by (auto simp: step_def split: if_splits wstate.splits)
  from count_update [OF w, of is_running Idle] snd
  have r: "length (filter is_running ((v_workers s)[w := Idle]))
      = length (filter is_running (v_workers s))"
    by (simp add: is_running_def)
  from count_update [OF w, of is_sending Idle] snd
  have sn: "length (filter is_sending ((v_workers s)[w := Idle])) + 1
      = length (filter is_sending (v_workers s))"
    by (simp add: is_sending_def)
  from r sn show ?thesis by (simp add: s' remaining_def)
next
  case Recv
  with st obtain index rest where d: "v_done s = index # rest"
    by (auto simp: step_def split: if_splits list.splits)
  with st Recv have "v_done s' = rest \<and> v_workers s' = v_workers s \<and> v_in s' = v_in s"
    by (auto simp: step_def Let_def split: if_splits prod.splits)
  with d show ?thesis by (simp add: remaining_def)
next
  case Abort
  with ev show ?thesis by simp
next
  case (Exit w)
  with st sel show ?thesis by (auto simp: step_def split: if_splits)
qed

lemma init_remaining:
  "0 < length (c_headers c) \<Longrightarrow> remaining c (VerifyHeaders_init c) = 4 * length (c_headers c)"
  by (simp add: remaining_def VerifyHeaders_init_def Let_def is_running_def is_sending_def)

lemma step_not_aborted:
  assumes "step c ev s = Some s'" and "ev \<noteq> Abort" and "v_seq s \<noteq> Aborted"
  shows "v_seq s' \<noteq> Aborted"
  using assms
  by (cases ev) (auto simp: step_def Let_def split: if_splits wstate.splits sum.splits
      list.splits prod.splits)

lemma run_abort_free:
  assumes "order_inv c T s0" and "account_inv c s0" and "\<not> v_crashed s0" and "v_seq s0 \<noteq> Aborted"
    and "length (c_headers c) \<le> length (c_seals c)"
    and "run c evs s0 = Some s" and "Abort \<notin> set evs"
  shows "\<not> v_crashed s \<and> v_seq s \<noteq> Aborted \<and> account_inv c s
     \<and> (v_seq s = Selecting \<longrightarrow> length evs + remaining c s = remaining c s0)"
  using assms
proof (induction evs arbitrary: s0 T)
  case Nil
  then show ?case by simp
next
  case (Cons ev evs)
  from Cons.prems(6) obtain s1 where s1: "step c ev s0 = Some s1" and r: "run c evs s1 = Some s"
    by (auto split: option.splits)
  from Cons.prems(7) have ev: "ev \<noteq> Abort" and evs: "Abort \<notin> set evs" by auto
  have i1: "order_inv c (T \<union> set (clock_readings [ev])) s1"
    using step_inv [OF Cons.prems(1) s1] .
  have a1: "account_inv c s1" using step_inv2 [OF Cons.prems(1,2) s1] .
  have nc1: "\<not> v_crashed s1" using step_no_crash [OF Cons.prems(1,2) s1 Cons.prems(5)] .
  have na1: "v_seq s1 \<noteq> Aborted" using step_not_aborted [OF s1 ev Cons.prems(4)] .
  from Cons.IH [OF i1 a1 nc1 na1 Cons.prems(5) r evs]
  have ih: "\<not> v_crashed s \<and> v_seq s \<noteq> Aborted \<and> account_inv c s
     \<and> (v_seq s = Selecting \<longrightarrow> length evs + remaining c s = remaining c s1)" .
  have "length (ev # evs) + remaining c s = remaining c s0" if sel: "v_seq s = Selecting"
  proof -
    have sel1: "v_seq s1 = Selecting"
      using no_results_after_return [OF r] sel by auto
    have sel0: "v_seq s0 = Selecting"
      using step_after_return [OF s1] sel1 by auto
    from step_remaining [OF Cons.prems(2) s1 ev sel0 nc1] ih sel show ?thesis by simp
  qed
  with ih show ?case by simp
qed

lemma VerifyHeaders_progress:
  assumes run: "run c evs (VerifyHeaders_init c) = Some s"
    and procs: "1 \<le> c_gomaxprocs c"
    and seals: "length (c_headers c) \<le> length (c_seals c)"
    and na: "Abort \<notin> set evs"
  shows "\<not> v_crashed s \<and> v_seq s \<noteq> Aborted
     \<and> (v_seq s = Selecting \<longrightarrow>
          length evs < 4 * length (c_headers c) \<and> (\<exists>ev. ev \<noteq> Abort \<and> step c ev s \<noteq> None))"
proof -
  have init: "\<not> v_crashed (VerifyHeaders_init c)" "v_seq (VerifyHeaders_init c) \<noteq> Aborted"
    by (simp_all add: VerifyHeaders_init_def Let_def)
  from run_abort_free [OF init_inv init_inv2 init seals run na]
  have af: "\<not> v_crashed s" "v_seq s \<noteq> Aborted" "account_inv c s"
    "v_seq s = Selecting \<Longrightarrow> length evs + remaining c s = remaining c (VerifyHeaders_init c)"
    by auto
  have i: "order_inv c (set (clock_readings evs)) s" using run_from_init [OF run] .
  have "length evs < 4 * length (c_headers c) \<and> (\<exists>ev. ev \<noteq> Abort \<and> step c ev s \<noteq> None)"
    if sel: "v_seq s = Selecting"
  proof -
    from progress [OF i af(3) sel af(1) procs]
    obtain ev s' where ev: "ev \<noteq> Abort" and st: "step c ev s = Some s'" by auto
    have "\<not> v_crashed s'" using step_no_crash [OF i af(3) st seals] .
    from step_remaining [OF af(3) st ev sel this] have pos: "0 < remaining c s" by simp
    from i sel have "0 < length (c_headers c)" by (auto simp: order_inv_def)
    from init_remaining [OF this] af(4) [OF sel] pos
    have "length evs < 4 * length (c_headers c)" by simp
    with ev st show ?thesis by auto
  qed
  with af show ?thesis by simp
qed

subsection \<open>The batch verifier: results, batches of three, cancellation\<close>

lemmas sched_defs = wildChild_def grandChild_def staleWild_def batch3_def
  staleBatch3_def reversedSchedule1_def reversedSchedule2_def leakCall_def leakSchedule_def
  leakState_def

lemmas eval_defs = VerifyHeaders_init_def step_def workers_def worker_verdict_def
  verifyHeaderWorker_def resolveParent_def verifyHeader_def VerifySeal_def gasLimitDiff_def
  Uint64_def allowedFutureBlockTime_def Let_def

lemma batch3_run1: "run batch3 reversedSchedule1 (VerifyHeaders_init batch3) = Some midState3"
  by (simp add: sched_defs ex_defs eval_defs drain.simps midState3_def)

lemma batch3_run2: "run batch3 reversedSchedule2 midState3 = Some finalState3"
  by (simp add: sched_defs ex_defs eval_defs drain.simps midState3_def finalState3_def)

lemma empty_batch_no_step:
  "c_headers c = [] \<Longrightarrow> step c ev (VerifyHeaders_init c) = None"
  by (cases ev) (simp_all add: step_def VerifyHeaders_init_def)

text \<open>
  C2. Take any schedule of the workers and the sequencing goroutine, and any
  point \<open>s1\<close> on the way to its end \<open>s2\<close>. What has been sent on the results
  channel at \<open>s2\<close> is, position by position, the verdict of
  \<^verbatim>\<open>verifyHeaderWorker\<close> for the header at that position (at a clock reading of
  the schedule); it extends what had been sent at \<open>s1\<close>; it never has more than
  \<open>N\<close> entries and has all \<open>N\<close> when the sequencing goroutine has returned
  after the last result. So results come out in input order, for every \<open>N\<close>;
  for \<open>N = 0\<close> the initial state is already final, with nothing sent. Moreover,
  with at least one processor and a seal flag for every header, a schedule
  without \<open>Abort\<close> never panics, has fewer than \<open>4 * N\<close> steps while the
  sequencing goroutine is still selecting, and can then always take a further
  step: every such schedule that cannot be extended has delivered all results.
\<close>

theorem VerifyHeaders_results_in_input_order:
  assumes "run c evs1 (VerifyHeaders_init c) = Some s1" and "run c evs2 s1 = Some s2"
  shows "(\<forall>i < length (v_errorsOut s2).
            \<exists>now \<in> set (clock_readings (evs1 @ evs2)).
              worker_verdict c now i = Inr (v_errorsOut s2 ! i))
     \<and> (\<exists>ext. v_errorsOut s2 = v_errorsOut s1 @ ext)
     \<and> length (v_errorsOut s2) \<le> length (c_headers c)
     \<and> (v_seq s2 = Completed \<longrightarrow> length (v_errorsOut s2) = length (c_headers c))
     \<and> (1 \<le> c_gomaxprocs c \<and> length (c_headers c) \<le> length (c_seals c)
          \<and> Abort \<notin> set (evs1 @ evs2) \<longrightarrow>
        \<not> v_crashed s2 \<and> v_seq s2 \<noteq> Aborted
        \<and> (v_seq s2 = Selecting \<longrightarrow>
             length (evs1 @ evs2) < 4 * length (c_headers c)
             \<and> (\<exists>ev. ev \<noteq> Abort \<and> step c ev s2 \<noteq> None)))"
proof -
  from assms have r: "run c (evs1 @ evs2) (VerifyHeaders_init c) = Some s2"
    by (simp add: run_append)
  from run_from_init [OF r] run_sent_grows [OF assms(2)]
  have safe: "(\<forall>i < length (v_errorsOut s2).
            \<exists>now \<in> set (clock_readings (evs1 @ evs2)).
              worker_verdict c now i = Inr (v_errorsOut s2 ! i))
     \<and> (\<exists>ext. v_errorsOut s2 = v_errorsOut s1 @ ext)
     \<and> length (v_errorsOut s2) \<le> length (c_headers c)
     \<and> (v_seq s2 = Completed \<longrightarrow> length (v_errorsOut s2) = length (c_headers c))"
    by (simp add: order_inv_def verdict_at_def)
  have live: "\<not> v_crashed s2 \<and> v_seq s2 \<noteq> Aborted
        \<and> (v_seq s2 = Selecting \<longrightarrow>
             length (evs1 @ evs2) < 4 * length (c_headers c)
             \<and> (\<exists>ev. ev \<noteq> Abort \<and> step c ev s2 \<noteq> None))"
    if "1 \<le> c_gomaxprocs c" "length (c_headers c) \<le> length (c_seals c)"
      "Abort \<notin> set (evs1 @ evs2)"
    using VerifyHeaders_progress [OF r that] .
  from safe live show ?thesis by blast
qed

theorem VerifyHeaders_results_in_input_order_witness:
  "run batch3 reversedSchedule1 (VerifyHeaders_init batch3) = Some midState3
   \<and> run batch3 reversedSchedule2 midState3 = Some finalState3
   \<and> v_errorsOut midState3 = []
   \<and> v_errorsOut finalState3 = [None, Some (InvalidGasLimit 2000000 1000000 976), None]
   \<and> length (v_errorsOut finalState3) = length (c_headers batch3)
   \<and> v_seq finalState3 = Completed
   \<and> v_seq (VerifyHeaders_init emptyBatch) = Completed
   \<and> v_errorsOut (VerifyHeaders_init emptyBatch) = []"
  using VerifyHeaders_results_in_input_order [OF batch3_run1 batch3_run2] batch3_run1 batch3_run2
  by (simp add: midState3_def finalState3_def batch3_def emptyBatch_def VerifyHeaders_init_def)







lemma leak_run: "run leakCall leakSchedule (VerifyHeaders_init leakCall) = Some leakState"
  by (simp add: sched_defs ex_defs eval_defs drain.simps)

text \<open>
  C7. Two headers and one worker: after the schedule \<open>leakSchedule\<close>, in which
  the \<^verbatim>\<open>select\<close> takes \<^verbatim>\<open>abort\<close> while the first announcement is still in the
  buffer of \<^verbatim>\<open>done\<close>, the worker stands at \<^verbatim>\<open>done <- 1\<close> with the buffer full, and
  no step of any goroutine is possible any more: the worker never exits.
\<close>

theorem worker_blocked_after_abort:
  "run leakCall leakSchedule (VerifyHeaders_init leakCall) = Some leakState
   \<and> (\<forall>ev. step leakCall ev leakState = None)"
proof -
  have "step leakCall ev leakState = None" for ev
    by (cases ev) (simp_all add: step_def leakState_def leakCall_def workers_def nth_Cons'
        split: wstate.splits)
  with leak_run show ?thesis by simp
qed

theorem worker_blocked_after_abort_witness:
  "v_workers leakState = [Sending 1]
   \<and> step leakCall (Send 0) leakState = None
   \<and> step leakCall (Exit 0) leakState = None
   \<and> step leakCall Recv leakState = None"
  using worker_blocked_after_abort by (simp add: leakState_def)

end
